theory Spec2Isabelle
  imports Main "HOL-Library.Word"
begin

section \<open>The UNIX-socket port driver (core/drivers/\_unix\_socket.c)\<close>

text \<open>
  The driver owns one listening socket and at most one client descriptor. Three entry
  points touch the shared descriptor field: \<open>AcceptNewClient\<close> (run by the accept
  thread), \<open>RecvPackets\<close> and \<open>SendPackets\<close> (run by the scheduler). Each of them is
  embedded below as a function on a pair of the driver object and the state of
  everything the driver calls into: the descriptor table of the process, the packet
  buffer allocator and the outcomes the kernel will give to the next system calls.
  The calls of one entry point are sequential; interleavings of the three threads are
  not part of this model. \<open>Init\<close> and \<open>DeInit\<close> are not embedded; the state \<open>Init\<close>
  leaves on success is \<open>startup_port\<close> below.
\<close>

subsection \<open>Constants of the source\<close>

definition NOT_CONNECTED :: int where
  "NOT_CONNECTED = - 1"

definition RECV_SKIP_TICKS :: "32 word" where
  "RECV_SKIP_TICKS = 256"

subsection \<open>The driver object\<close>

text \<open>The data members of \<open>class UnixSocketPort\<close>; \<open>recv_skip_cnt_\<close> is a \<open>uint32_t\<close>.\<close>

record UnixSocketPort =
  recv_skip_cnt :: "32 word"
  listen_fd :: int
  client_fd :: int
  old_client_fd :: int
  accept_thread :: nat

subsection \<open>Packet buffers\<close>

type_synonym byte = "8 word"

text \<open>
  One segment of a packet (\<open>struct rte_mbuf\<close>): \<open>buf\<close> is the memory that
  \<open>rte_pktmbuf_mtod\<close> points to, \<open>data_len\<close> the number of valid bytes in it,
  \<open>nb_segs\<close> the number of segments the chain claims to have (meaningful in the first
  segment) and \<open>next_seg\<close> the \<open>next\<close> pointer to the following segment, \<open>None\<close> for \<open>NULL\<close>.
\<close>

datatype rte_mbuf = Mbuf (buf: "byte list") (data_len: nat) (nb_segs: nat) (next_seg: "rte_mbuf option")

text \<open>A packet buffer (\<open>struct snbuf\<close>): its address and its first segment.\<close>

record snbuf =
  snb_addr :: nat
  mbuf :: rte_mbuf

subsection \<open>What the driver calls into\<close>

datatype errno_code = EAGAIN | EWOULDBLOCK | EINTR | EBADF | EPIPE | ECONNRESET | ENOMEM | EMFILE

text \<open>
  The kernel's answers to the calls that depend on the peer or on resources are taken
  from scripts, consumed one entry per call.
  \<^item> \<open>accept4\<close>: a new connection arrives on a descriptor number, or the call fails;
    with no entry left the (blocking) call never returns.
  \<^item> \<open>recv\<close>: a datagram is waiting, the peer has shut down, or the call fails; with no
    entry left the (non-blocking) call would block.
  \<^item> \<open>sendmsg\<close>: the datagram is taken, or the call fails; with no entry left it is taken.
  \<^item> \<open>pthread_create\<close>: its return code; with no entry left it succeeds.
\<close>

datatype accept_event = Accepted nat nat | AcceptFailed errno_code
datatype recv_event = Datagram "byte list" | Shutdown | RecvFailed errno_code
datatype send_event = Taken | SendFailed errno_code

record iovec =
  iov_base :: "byte list"
  iov_len :: nat

record sendmsg_call =
  sm_fd :: int
  sm_iov :: "iovec list"
  sm_ret :: int

record world =
  fds :: "int \<rightharpoonup> nat"
  errno :: errno_code
  accept_q :: "accept_event list"
  recv_q :: "recv_event list"
  send_q :: "send_event list"
  spawn_q :: "int list"
  pthread_create_calls :: nat
  acceptors :: nat
  recv_calls :: nat
  sendmsg_calls :: "sendmsg_call list"
  wire :: "byte list list"
  pool :: "nat list"
  allocs :: nat
  logs :: "string list"

text \<open>
  \<open>fds\<close> is the descriptor table: the open descriptors and the connection each one
  refers to. \<open>pthread_create_calls\<close> counts the calls of \<open>pthread_create\<close>,
  \<open>acceptors\<close> the accept threads they created, \<open>recv_calls\<close> the \<open>recv\<close>
  calls made, \<open>allocs\<close> the buffers handed out by \<open>snb_alloc\<close>; \<open>sendmsg_calls\<close>
  records every \<open>sendmsg\<close> call with its gather list and result, \<open>wire\<close> the datagrams
  transmitted. \<open>pool\<close> holds the addresses of the buffers the allocator owns.
\<close>

definition log_perr :: "string \<Rightarrow> world \<Rightarrow> world" where
  "log_perr msg w = w\<lparr>logs := logs w @ [msg]\<rparr>"

definition log_err :: "string \<Rightarrow> world \<Rightarrow> world" where
  "log_err msg w = w\<lparr>logs := logs w @ [msg]\<rparr>"

definition is_open :: "world \<Rightarrow> int \<Rightarrow> bool" where
  "is_open w fd \<longleftrightarrow> 0 \<le> fd \<and> fds w fd \<noteq> None"

text \<open>\<open>accept4(listen_fd, NULL, NULL, SOCK_NONBLOCK)\<close>; \<open>None\<close>: the call never returns.\<close>

definition accept4 :: "int \<Rightarrow> world \<Rightarrow> (int \<times> world) option" where
  "accept4 lfd w =
     (case accept_q w of
        [] \<Rightarrow> None
      | Accepted fd c # es \<Rightarrow> Some (int fd, w\<lparr>fds := (fds w)(int fd \<mapsto> c), accept_q := es\<rparr>)
      | AcceptFailed e # es \<Rightarrow> Some (- 1, w\<lparr>errno := e, accept_q := es\<rparr>))"

text \<open>\<open>dup2(oldfd, newfd)\<close> and \<open>close(fd)\<close> on the descriptor table; the driver ignores
  what they return.\<close>

definition dup2 :: "int \<Rightarrow> int \<Rightarrow> world \<Rightarrow> int \<times> world" where
  "dup2 oldfd newfd w =
     (if \<not> is_open w oldfd \<or> newfd < 0 then (- 1, w\<lparr>errno := EBADF\<rparr>)
      else if oldfd = newfd then (newfd, w)
      else (newfd, w\<lparr>fds := (fds w)(newfd := fds w oldfd)\<rparr>))"

definition close :: "int \<Rightarrow> world \<Rightarrow> int \<times> world" where
  "close fd w =
     (if \<not> is_open w fd then (- 1, w\<lparr>errno := EBADF\<rparr>)
      else (0, w\<lparr>fds := (fds w)(fd := None)\<rparr>))"

text \<open>\<open>pthread_create(&accept_thread_, NULL, AcceptThreadMain, this)\<close>: the return code.\<close>

definition pthread_create :: "world \<Rightarrow> int \<times> world" where
  "pthread_create w =
     (let w0 = w\<lparr>pthread_create_calls := Suc (pthread_create_calls w)\<rparr> in
      case spawn_q w of
        [] \<Rightarrow> (0, w0\<lparr>acceptors := Suc (acceptors w)\<rparr>)
      | r # rs \<Rightarrow>
          if r = 0 then (0, w0\<lparr>acceptors := Suc (acceptors w), spawn_q := rs\<rparr>)
          else (r, w0\<lparr>spawn_q := rs\<rparr>))"

subsection \<open>AcceptNewClient\<close>

text \<open>The \<open>for (;;)\<close> loop around \<open>accept4\<close>: it ends with the first non-negative
  return; every failure that is not \<open>EINTR\<close> is logged.\<close>

function accept_loop :: "int \<Rightarrow> world \<Rightarrow> (int \<times> world) option" where
  "accept_loop lfd w =
     (case accept4 lfd w of
        None \<Rightarrow> None
      | Some (ret, w1) \<Rightarrow>
          if ret \<ge> 0 then Some (ret, w1)
          else accept_loop lfd
                 (if errno w1 \<noteq> EINTR then log_perr ''[UnixSocket]:accept4()'' w1 else w1))"
  by pat_completeness auto
termination
  by (relation "measure (\<lambda>(lfd, w). length (accept_q w))")
     (auto simp: accept4_def log_perr_def split: list.splits accept_event.splits)

definition AcceptNewClient :: "UnixSocketPort \<times> world \<Rightarrow> (UnixSocketPort \<times> world) option" where
  "AcceptNewClient s =
     (case s of (p, w) \<Rightarrow>
        (case accept_loop (listen_fd p) w of
           None \<Rightarrow> None
         | Some (ret, w1) \<Rightarrow>
             let p1 = p\<lparr>recv_skip_cnt := 0\<rparr> in
             if old_client_fd p1 \<noteq> NOT_CONNECTED then
               let (r2, w2) = dup2 ret (client_fd p1) w1;
                   (r3, w3) = close ret w2
               in Some (p1, w3)
             else Some (p1\<lparr>client_fd := ret\<rparr>, w1)))"

subsection \<open>CloseConnection\<close>

definition CloseConnection :: "UnixSocketPort \<times> world \<Rightarrow> UnixSocketPort \<times> world" where
  "CloseConnection s =
     (case s of (p, w) \<Rightarrow>
        let p1 = p\<lparr>old_client_fd := client_fd p\<rparr>;
            p2 = p1\<lparr>client_fd := NOT_CONNECTED\<rparr>;
            (ret, w1) = pthread_create w;
            p3 = p2\<lparr>accept_thread := 0\<rparr>
        in (p3, if ret \<noteq> 0 then log_err ''[UnixSocket]:pthread_create() returned errno'' w1 else w1))"

subsection \<open>The packet buffer allocator\<close>

text \<open>
  Modelled from the spec: the bodies of \<open>snb_alloc\<close>, \<open>snb_free\<close>, \<open>snb_free_bulk\<close> and
  \<open>snb_append\<close> and the constant \<open>SNBUF_DATA\<close> are in headers outside the source file.
  The spec gives the allocator as \<open>allocate() -> Option<Buffer>\<close>, \<open>release(Buffer)\<close>,
  \<open>release_bulk(Buffer[])\<close>, and a buffer as a fixed-capacity writable region with an
  append-with-length operation. The capacity \<open>SNBUF_DATA\<close> is the parameter \<open>cap\<close> of
  everything that uses it. A fresh buffer is one segment with no valid bytes.
\<close>

definition snb_alloc :: "nat \<Rightarrow> world \<Rightarrow> snbuf option \<times> world" where
  "snb_alloc cap w =
     (case pool w of
        [] \<Rightarrow> (None, w)
      | a # as \<Rightarrow>
          (Some \<lparr>snb_addr = a, mbuf = Mbuf (replicate cap 0) 0 1 None\<rparr>,
           w\<lparr>pool := as, allocs := Suc (allocs w)\<rparr>))"

definition snb_free :: "snbuf \<Rightarrow> world \<Rightarrow> world" where
  "snb_free pkt w = w\<lparr>pool := snb_addr pkt # pool w\<rparr>"

definition snb_free_bulk :: "snbuf list \<Rightarrow> int \<Rightarrow> world \<Rightarrow> world" where
  "snb_free_bulk pkts n w = w\<lparr>pool := map snb_addr (take (nat n) pkts) @ pool w\<rparr>"

definition snb_append :: "snbuf \<Rightarrow> int \<Rightarrow> snbuf" where
  "snb_append pkt len =
     (case mbuf pkt of
        Mbuf b l n nx \<Rightarrow> pkt\<lparr>mbuf := Mbuf b (l + nat len) n nx\<rparr>)"

text \<open>The bytes a buffer holds: the valid prefix of its first segment.\<close>

definition snb_bytes :: "snbuf \<Rightarrow> byte list" where
  "snb_bytes pkt = take (data_len (mbuf pkt)) (buf (mbuf pkt))"

subsection \<open>recv and sendmsg\<close>

text \<open>
  \<open>recv(fd, pkt->_data, len, 0)\<close> on the sequenced-packet socket: one datagram per call,
  cut to \<open>len\<close> bytes, the rest of it discarded; \<open>0\<close> after the peer's shutdown (and for
  a datagram with no bytes); \<open>-1\<close> with \<open>errno\<close> set on failure.
\<close>

definition write_data :: "snbuf \<Rightarrow> byte list \<Rightarrow> snbuf" where
  "write_data pkt bs =
     (case mbuf pkt of
        Mbuf b l n nx \<Rightarrow> pkt\<lparr>mbuf := Mbuf (bs @ drop (length bs) b) l n nx\<rparr>)"

definition recv :: "int \<Rightarrow> snbuf \<Rightarrow> nat \<Rightarrow> world \<Rightarrow> int \<times> snbuf \<times> world" where
  "recv fd pkt len w =
     (let w0 = w\<lparr>recv_calls := Suc (recv_calls w)\<rparr> in
      if \<not> is_open w fd then (- 1, pkt, w0\<lparr>errno := EBADF\<rparr>)
      else
        (case recv_q w of
           [] \<Rightarrow> (- 1, pkt, w0\<lparr>errno := EAGAIN\<rparr>)
         | Datagram d # es \<Rightarrow>
             (int (min (length d) len), write_data pkt (take len d), w0\<lparr>recv_q := es\<rparr>)
         | Shutdown # es \<Rightarrow> (0, pkt, w0\<lparr>recv_q := es\<rparr>)
         | RecvFailed e # es \<Rightarrow> (- 1, pkt, w0\<lparr>errno := e, recv_q := es\<rparr>)))"

text \<open>
  \<open>sendmsg(fd, &msg, 0)\<close>: the gather list is sent as one datagram, the bytes of its
  entries in order, or the call fails and nothing is sent.
\<close>

definition gathered :: "iovec list \<Rightarrow> byte list" where
  "gathered iov = concat (map (\<lambda>v. take (iov_len v) (iov_base v)) iov)"

definition sendmsg_result :: "int \<Rightarrow> iovec list \<Rightarrow> world \<Rightarrow> (errno_code + unit) \<times> send_event list" where
  "sendmsg_result fd iov w =
     (if \<not> is_open w fd then (Inl EBADF, send_q w)
      else
        (case send_q w of
           [] \<Rightarrow> (Inr (), [])
         | Taken # es \<Rightarrow> (Inr (), es)
         | SendFailed e # es \<Rightarrow> (Inl e, es)))"

definition sendmsg :: "int \<Rightarrow> iovec list \<Rightarrow> world \<Rightarrow> int \<times> world" where
  "sendmsg fd iov w =
     (case sendmsg_result fd iov w of
        (Inl e, es) \<Rightarrow>
          (- 1, w\<lparr>errno := e, send_q := es,
                  sendmsg_calls := sendmsg_calls w @ [\<lparr>sm_fd = fd, sm_iov = iov, sm_ret = - 1\<rparr>]\<rparr>)
      | (Inr u, es) \<Rightarrow>
          (int (length (gathered iov)),
           w\<lparr>send_q := es,
             sendmsg_calls := sendmsg_calls w @
               [\<lparr>sm_fd = fd, sm_iov = iov, sm_ret = int (length (gathered iov))\<rparr>],
             wire := wire w @ [gathered iov]\<rparr>))"

subsection \<open>RecvPackets\<close>

text \<open>
  One pass through the body of the \<open>while (received < cnt)\<close> loop, ending in the
  source's \<open>continue\<close> or \<open>break\<close>; \<open>closed\<close> is the end of the body, where
  \<open>CloseConnection\<close> is called before the last \<open>break\<close>. \<open>pkts\<close> holds the entries
  \<open>pkts[0..received)\<close> written so far.
\<close>

datatype 'a ctl = Continue 'a | Break 'a

definition recv_body ::
  "nat \<Rightarrow> int \<Rightarrow> int \<Rightarrow> snbuf list \<Rightarrow> UnixSocketPort \<Rightarrow> world \<Rightarrow>
     (int \<times> snbuf list \<times> UnixSocketPort \<times> world) ctl" where
  "recv_body cap cfd received pkts p w =
     (case snb_alloc cap w of
        (None, w1) \<Rightarrow> Break (received, pkts, p, w1)
      | (Some pkt, w1) \<Rightarrow>
          (case recv cfd pkt cap w1 of
             (ret, pkt1, w2) \<Rightarrow>
               if ret > 0 then
                 Continue (received + 1, pkts @ [snb_append pkt1 ret], p, w2)
               else
                 let w3 = snb_free pkt1 w2;
                     closed = (case CloseConnection (p, w3) of
                                 (p1, w4) \<Rightarrow> Break (received, pkts, p1, w4))
                 in
                   if ret < 0 then
                     if errno w3 = EAGAIN \<or> errno w3 = EWOULDBLOCK then
                       Break (received, pkts, p, w3)
                     else if errno w3 = EINTR then Continue (received, pkts, p, w3)
                     else closed
                   else closed))"

function recv_loop ::
  "nat \<Rightarrow> int \<Rightarrow> int \<Rightarrow> int \<Rightarrow> snbuf list \<Rightarrow> UnixSocketPort \<Rightarrow> world \<Rightarrow>
     int \<times> snbuf list \<times> UnixSocketPort \<times> world" where
  "recv_loop cap cfd cnt received pkts p w =
     (if received < cnt then
        (case recv_body cap cfd received pkts p w of
           Continue (received', pkts', p', w') \<Rightarrow> recv_loop cap cfd cnt received' pkts' p' w'
         | Break st \<Rightarrow> st)
      else (received, pkts, p, w))"
  by pat_completeness auto
termination
  by (relation "measure (\<lambda>(cap, cfd, cnt, received, pkts, p, w).
                  nat (cnt - received) + length (recv_q w))")
     (auto simp: recv_body_def snb_alloc_def recv_def snb_free_def Let_def
           split: list.splits if_splits recv_event.splits prod.splits)

definition RecvPackets ::
  "nat \<Rightarrow> nat \<Rightarrow> int \<Rightarrow> UnixSocketPort \<times> world \<Rightarrow> int \<times> snbuf list \<times> UnixSocketPort \<times> world" where
  "RecvPackets cap qid cnt s =
     (case s of (p, w) \<Rightarrow>
        let cfd = client_fd p in
        if cfd = NOT_CONNECTED then (0, [], p, w)
        else if recv_skip_cnt p \<noteq> 0 then (0, [], p\<lparr>recv_skip_cnt := recv_skip_cnt p - 1\<rparr>, w)
        else
          (case recv_loop cap cfd cnt 0 [] p w of
             (received, pkts, p1, w1) \<Rightarrow>
               (received, pkts,
                if received = 0 then p1\<lparr>recv_skip_cnt := RECV_SKIP_TICKS\<rparr> else p1, w1)))"

subsection \<open>SendPackets\<close>

text \<open>
  Two reads of the source have no defined result in C: \<open>pkts[i]\<close> beyond the array, and
  \<open>mbuf->next\<close> followed through \<open>NULL\<close> when a chain is shorter than its \<open>nb_segs\<close>.
\<close>

datatype fault = OutOfBounds | NullDeref

text \<open>The inner \<open>for (j = 0; j < nb_segs; j++)\<close> loop that fills \<open>iov\<close>.\<close>

fun fill_iov :: "nat \<Rightarrow> rte_mbuf option \<Rightarrow> iovec list option" where
  "fill_iov 0 m = Some []"
| "fill_iov (Suc n) None = None"
| "fill_iov (Suc n) (Some m) =
     (case fill_iov n (next_seg m) of
        None \<Rightarrow> None
      | Some iov \<Rightarrow> Some (\<lparr>iov_base = buf m, iov_len = data_len m\<rparr> # iov))"

text \<open>The outer \<open>for (i = 0; i < cnt; i++)\<close> loop.\<close>

function send_loop ::
  "int \<Rightarrow> snbuf list \<Rightarrow> int \<Rightarrow> nat \<Rightarrow> int \<Rightarrow> world \<Rightarrow> fault + (int \<times> world)" where
  "send_loop cfd pkts cnt i sent w =
     (if int i < cnt then
        if i \<ge> length pkts then Inl OutOfBounds
        else
          (case fill_iov (nb_segs (mbuf (pkts ! i))) (Some (mbuf (pkts ! i))) of
             None \<Rightarrow> Inl NullDeref
           | Some iov \<Rightarrow>
               (case sendmsg cfd iov w of
                  (ret, w1) \<Rightarrow>
                    if ret < 0 then Inr (sent, w1)
                    else send_loop cfd pkts cnt (Suc i) (sent + 1) w1))
      else Inr (sent, w))"
  by pat_completeness auto
termination
  by (relation "measure (\<lambda>(cfd, pkts, cnt, i, sent, w). nat (cnt - int i))") auto

definition SendPackets ::
  "nat \<Rightarrow> snbuf list \<Rightarrow> int \<Rightarrow> UnixSocketPort \<times> world \<Rightarrow> fault + (int \<times> UnixSocketPort \<times> world)" where
  "SendPackets qid pkts cnt s =
     (case s of (p, w) \<Rightarrow>
        let cfd = client_fd p in
        (case send_loop cfd pkts cnt 0 0 w of
           Inl f \<Rightarrow> Inl f
         | Inr (sent, w1) \<Rightarrow>
             Inr (sent, p, if sent \<noteq> 0 then snb_free_bulk pkts sent w1 else w1)))"

subsection \<open>Sequences of scheduler calls\<close>

text \<open>
  The scheduler calls the two data-path entry points one after the other, in any order
  and with any arguments. \<open>data_path\<close> runs such a sequence; it stops at a call whose
  arguments make \<open>SendPackets\<close> read outside its array or through \<open>NULL\<close>.
\<close>

datatype call = RecvCall nat int | SendCall nat "snbuf list" int

fun data_path :: "nat \<Rightarrow> call list \<Rightarrow> UnixSocketPort \<times> world \<Rightarrow> fault + (UnixSocketPort \<times> world)" where
  "data_path cap [] s = Inr s"
| "data_path cap (RecvCall qid cnt # cs) s =
     (case RecvPackets cap qid cnt s of (n, pkts, s') \<Rightarrow> data_path cap cs s')"
| "data_path cap (SendCall qid pkts cnt # cs) s =
     (case SendPackets qid pkts cnt s of
        Inl f \<Rightarrow> Inl f
      | Inr (n, s') \<Rightarrow> data_path cap cs s')"

text \<open>A sequence of receive calls, with what each of them returns.\<close>

fun recv_seq ::
  "nat \<Rightarrow> (nat \<times> int) list \<Rightarrow> UnixSocketPort \<times> world \<Rightarrow>
     (int \<times> snbuf list) list \<times> UnixSocketPort \<times> world" where
  "recv_seq cap [] s = ([], s)"
| "recv_seq cap ((qid, cnt) # cs) s =
     (case RecvPackets cap qid cnt s of
        (n, pkts, s') \<Rightarrow>
          (case recv_seq cap cs s' of (rs, s'') \<Rightarrow> ((n, pkts) # rs, s'')))"

subsection \<open>Segments of a packet\<close>

text \<open>
  The segments of a packet, in order: its first segment and every one reached through
  \<open>next\<close>. A segment holds the first \<open>data_len\<close> bytes of its memory, and its entry in
  a gather list is that memory with that length. A packet is well formed when
  \<open>nb_segs\<close> in its first segment is the number of its segments.
\<close>

fun chain :: "rte_mbuf \<Rightarrow> rte_mbuf list" where
  "chain (Mbuf b l n None) = [Mbuf b l n None]"
| "chain (Mbuf b l n (Some m)) = Mbuf b l n (Some m) # chain m"

definition seg_bytes :: "rte_mbuf \<Rightarrow> byte list" where
  "seg_bytes m = take (data_len m) (buf m)"

definition seg_iov :: "rte_mbuf \<Rightarrow> iovec" where
  "seg_iov m = \<lparr>iov_base = buf m, iov_len = data_len m\<rparr>"

definition well_formed :: "snbuf \<Rightarrow> bool" where
  "well_formed pkt \<longleftrightarrow> nb_segs (mbuf pkt) = length (chain (mbuf pkt))"

definition pkt_iov :: "snbuf \<Rightarrow> iovec list" where
  "pkt_iov pkt = map seg_iov (chain (mbuf pkt))"

definition pkt_datagram :: "snbuf \<Rightarrow> byte list" where
  "pkt_datagram pkt = concat (map seg_bytes (chain (mbuf pkt)))"

text \<open>
  The arguments of a send call are well formed when the array has at least \<open>cnt\<close>
  entries and the first \<open>cnt\<close> of them are well-formed packets.
\<close>

definition batch_ok :: "snbuf list \<Rightarrow> int \<Rightarrow> bool" where
  "batch_ok pkts cnt \<longleftrightarrow> cnt \<le> int (length pkts) \<and> list_all well_formed (take (nat cnt) pkts)"

text \<open>
  What no \<open>sendmsg\<close> call touches: everything but \<open>errno\<close>, the script of send
  outcomes, the record of the calls and the wire.
\<close>

definition send_frame :: "world \<Rightarrow> world \<Rightarrow> bool" where
  "send_frame w w' \<longleftrightarrow>
     fds w' = fds w \<and> accept_q w' = accept_q w \<and> recv_q w' = recv_q w \<and>
     spawn_q w' = spawn_q w \<and> pthread_create_calls w' = pthread_create_calls w \<and>
     acceptors w' = acceptors w \<and> recv_calls w' = recv_calls w \<and> pool w' = pool w \<and>
     allocs w' = allocs w \<and> logs w' = logs w"

subsection \<open>Scripts of receive outcomes\<close>

text \<open>
  \<open>payloads\<close> are the datagrams in a script of \<open>recv\<close> outcomes, in order. \<open>room\<close> is
  the room the receive loop needs to get through a script: one buffer and one place
  in the batch for each datagram, and at least one of each for an iteration that keeps
  nothing. An outcome \<open>passes\<close> when the loop goes on after it: a datagram of at least
  one byte, or an interrupted call.
\<close>

fun payloads :: "recv_event list \<Rightarrow> byte list list" where
  "payloads [] = []"
| "payloads (Datagram d # es) = d # payloads es"
| "payloads (Shutdown # es) = payloads es"
| "payloads (RecvFailed x # es) = payloads es"

fun room :: "recv_event list \<Rightarrow> nat" where
  "room [] = 0"
| "room (Datagram d # es) = Suc (room es)"
| "room (Shutdown # es) = max 1 (room es)"
| "room (RecvFailed x # es) = max 1 (room es)"

definition passes :: "recv_event \<Rightarrow> bool" where
  "passes e = (case e of Datagram d \<Rightarrow> d \<noteq> [] | Shutdown \<Rightarrow> False | RecvFailed x \<Rightarrow> x = EINTR)"

text \<open>A state used to run the entry points on concrete inputs: the listening socket on
  descriptor 3, one client on descriptor 5, two buffers in the allocator.\<close>

definition example_world :: world where
  "example_world =
     \<lparr>fds = [3 \<mapsto> 0, 5 \<mapsto> 1], errno = EAGAIN, accept_q = [], recv_q = [], send_q = [],
      spawn_q = [], pthread_create_calls = 1, acceptors = 1, recv_calls = 0,
      sendmsg_calls = [], wire = [], pool = [100, 101], allocs = 0, logs = []\<rparr>"

definition example_port :: UnixSocketPort where
  "example_port =
     \<lparr>recv_skip_cnt = 0, listen_fd = 3, client_fd = 5, old_client_fd = NOT_CONNECTED,
      accept_thread = 0\<rparr>"

text \<open>Three one-segment packets, and a packet of three segments of 2, 1 and 3 bytes.\<close>

definition example_batch :: "snbuf list" where
  "example_batch =
     [\<lparr>snb_addr = 201, mbuf = Mbuf [1, 2] 2 1 None\<rparr>,
      \<lparr>snb_addr = 202, mbuf = Mbuf [3] 1 1 None\<rparr>,
      \<lparr>snb_addr = 203, mbuf = Mbuf [4, 5, 6] 3 1 None\<rparr>]"

definition example_chained :: snbuf where
  "example_chained =
     \<lparr>snb_addr = 204,
      mbuf = Mbuf [10, 11] 2 3 (Some (Mbuf [12] 1 1 (Some (Mbuf [13, 14, 15] 3 1 None))))\<rparr>"

text \<open>The state after \<open>Init\<close>: no client yet, the listening socket on descriptor 3; two
  clients will connect, on descriptors 5 and 6, and the first one will shut down.\<close>

definition startup_port :: UnixSocketPort where
  "startup_port =
     \<lparr>recv_skip_cnt = 0, listen_fd = 3, client_fd = NOT_CONNECTED,
      old_client_fd = NOT_CONNECTED, accept_thread = 0\<rparr>"

definition startup_world :: world where
  "startup_world =
     \<lparr>fds = [3 \<mapsto> 0], errno = EAGAIN, accept_q = [Accepted 5 1, Accepted 6 2],
      recv_q = [Shutdown], send_q = [],
      spawn_q = [], pthread_create_calls = 1, acceptors = 1, recv_calls = 0,
      sendmsg_calls = [], wire = [], pool = [100, 101], allocs = 0, logs = []\<rparr>"

section \<open>Properties\<close>

declare accept_loop.simps [simp del] recv_loop.simps [simp del] send_loop.simps [simp del]

subsection \<open>The idle-poll throttle\<close>

text \<open>
  Claim C4. A receive call on an active connection with a nonzero idle-poll counter
  decrements the counter by one and returns 0 with nothing else changed: no read is
  attempted and no buffer allocated. A call that finds the counter at zero and ends
  with zero buffers leaves the counter at \<open>RECV_SKIP_TICKS\<close>, which is 256.
\<close>

theorem RecvPackets_idle_throttle:
  assumes "client_fd p \<noteq> NOT_CONNECTED"
  shows "(recv_skip_cnt p \<noteq> 0 \<longrightarrow>
            RecvPackets cap qid cnt (p, w) =
              (0, [], p\<lparr>recv_skip_cnt := recv_skip_cnt p - 1\<rparr>, w) \<and>
            unat (recv_skip_cnt p - 1) = unat (recv_skip_cnt p) - 1) \<and>
         (recv_skip_cnt p = 0 \<longrightarrow>
            (case RecvPackets cap qid cnt (p, w) of
               (n, pkts, p', w') \<Rightarrow> n = 0 \<longrightarrow> recv_skip_cnt p' = RECV_SKIP_TICKS)) \<and>
         unat RECV_SKIP_TICKS = 256"
  using assms
  by (auto simp: RecvPackets_def Let_def unat_minus_one RECV_SKIP_TICKS_def split: prod.splits)

theorem RecvPackets_idle_throttle_witness:
  "client_fd (example_port\<lparr>recv_skip_cnt := 3\<rparr>) \<noteq> NOT_CONNECTED \<and>
   RecvPackets 2048 0 32 (example_port\<lparr>recv_skip_cnt := 3\<rparr>, example_world) =
     (0, [], example_port\<lparr>recv_skip_cnt := 2\<rparr>, example_world) \<and>
   client_fd example_port \<noteq> NOT_CONNECTED \<and>
   recv_skip_cnt (fst (snd (snd (RecvPackets 2048 0 32 (example_port, example_world))))) = 256"
proof -
  have h1: "client_fd (example_port\<lparr>recv_skip_cnt := 3\<rparr>) \<noteq> NOT_CONNECTED"
    and h2: "client_fd example_port \<noteq> NOT_CONNECTED"
    by (simp_all add: example_port_def NOT_CONNECTED_def)
  have r: "fst (RecvPackets 2048 0 32 (example_port, example_world)) = 0"
    by (simp add: RecvPackets_def example_port_def example_world_def NOT_CONNECTED_def
        recv_loop.simps recv_body_def snb_alloc_def recv_def is_open_def snb_free_def)
  from RecvPackets_idle_throttle [OF h1, of 2048 0 32 example_world]
  have a: "RecvPackets 2048 0 32 (example_port\<lparr>recv_skip_cnt := 3\<rparr>, example_world) =
     (0, [], example_port\<lparr>recv_skip_cnt := 2\<rparr>, example_world)"
    by (simp add: example_port_def)
  from RecvPackets_idle_throttle [OF h2, of 2048 0 32 example_world] r
  have b: "recv_skip_cnt (fst (snd (snd (RecvPackets 2048 0 32 (example_port, example_world))))) = 256"
    by (simp add: example_port_def RECV_SKIP_TICKS_def split: prod.splits)
  from h1 a h2 b show ?thesis by simp
qed

lemma recv_seq_throttled:
  "client_fd p \<noteq> NOT_CONNECTED \<Longrightarrow> length cs \<le> unat (recv_skip_cnt p) \<Longrightarrow>
     recv_seq cap cs (p, w) =
       (replicate (length cs) (0, []),
        p\<lparr>recv_skip_cnt := recv_skip_cnt p - of_nat (length cs)\<rparr>, w)"
proof (induction cs arbitrary: p)
  case Nil
  then show ?case by simp
next
  case (Cons c cs)
  obtain qid cnt where c: "c = (qid, cnt)" by (cases c)
  from Cons.prems have nz: "recv_skip_cnt p \<noteq> 0" by (auto simp: unat_eq_0)
  let ?p = "p\<lparr>recv_skip_cnt := recv_skip_cnt p - 1\<rparr>"
  have step: "RecvPackets cap qid cnt (p, w) = (0, [], ?p, w)"
    using Cons.prems nz by (simp add: RecvPackets_def)
  have "unat (recv_skip_cnt ?p) = unat (recv_skip_cnt p) - 1"
    using nz by (simp add: unat_minus_one)
  then have "length cs \<le> unat (recv_skip_cnt ?p)" using Cons.prems by simp
  from Cons.IH [OF _ this] Cons.prems(1)
  have "recv_seq cap cs (?p, w) =
       (replicate (length cs) (0, []),
        ?p\<lparr>recv_skip_cnt := recv_skip_cnt ?p - of_nat (length cs)\<rparr>, w)"
    by simp
  then show ?case using step c by (simp add: algebra_simps)
qed

text \<open>
  Claim C10. A receive call on an active connection with the idle-poll counter at zero
  and a requested count of 0 changes nothing but the counter: it makes no read and
  allocates no buffer, returns 0 and sets the counter to 256. The next 256 receive
  calls, whatever they request and whatever is waiting on the socket, each return 0
  with no buffer and leave everything but the counter as it was.
\<close>

theorem RecvPackets_zero_count_engages_backoff:
  assumes "client_fd p \<noteq> NOT_CONNECTED" and "recv_skip_cnt p = 0"
  shows "RecvPackets cap qid 0 (p, w) = (0, [], p\<lparr>recv_skip_cnt := RECV_SKIP_TICKS\<rparr>, w) \<and>
         unat RECV_SKIP_TICKS = 256 \<and>
         (\<forall>cs. length cs = 256 \<longrightarrow>
            recv_seq cap cs (p\<lparr>recv_skip_cnt := RECV_SKIP_TICKS\<rparr>, w) =
              (replicate 256 (0, []), p, w))"
proof (intro conjI allI impI)
  show "RecvPackets cap qid 0 (p, w) = (0, [], p\<lparr>recv_skip_cnt := RECV_SKIP_TICKS\<rparr>, w)"
    using assms by (simp add: RecvPackets_def recv_loop.simps)
next
  show "unat RECV_SKIP_TICKS = 256" by (simp add: RECV_SKIP_TICKS_def)
next
  fix cs :: "(nat \<times> int) list"
  assume len: "length cs = 256"
  let ?p = "p\<lparr>recv_skip_cnt := RECV_SKIP_TICKS\<rparr>"
  have "recv_seq cap cs (?p, w) =
       (replicate (length cs) (0, []),
        ?p\<lparr>recv_skip_cnt := recv_skip_cnt ?p - of_nat (length cs)\<rparr>, w)"
    by (rule recv_seq_throttled) (use assms len in \<open>simp_all add: RECV_SKIP_TICKS_def\<close>)
  then show "recv_seq cap cs (?p, w) = (replicate 256 (0, []), p, w)"
    using len assms(2) by (simp add: RECV_SKIP_TICKS_def)
qed

theorem RecvPackets_zero_count_engages_backoff_witness:
  "client_fd example_port \<noteq> NOT_CONNECTED \<and> recv_skip_cnt example_port = 0 \<and>
   length (replicate 256 (0 :: nat, 32 :: int)) = 256 \<and>
   RecvPackets 2048 0 0 (example_port, example_world\<lparr>recv_q := [Datagram [1, 2, 3]]\<rparr>) =
     (0, [], example_port\<lparr>recv_skip_cnt := RECV_SKIP_TICKS\<rparr>,
      example_world\<lparr>recv_q := [Datagram [1, 2, 3]]\<rparr>) \<and>
   recv_seq 2048 (replicate 256 (0, 32))
     (example_port\<lparr>recv_skip_cnt := RECV_SKIP_TICKS\<rparr>,
      example_world\<lparr>recv_q := [Datagram [1, 2, 3]]\<rparr>) =
     (replicate 256 (0, []), example_port, example_world\<lparr>recv_q := [Datagram [1, 2, 3]]\<rparr>)"
proof -
  have h1: "client_fd example_port \<noteq> NOT_CONNECTED"
    and h2: "recv_skip_cnt example_port = 0"
    by (simp_all add: example_port_def NOT_CONNECTED_def)
  have h3: "length (replicate 256 (0 :: nat, 32 :: int)) = 256" by simp
  from RecvPackets_zero_count_engages_backoff [OF h1 h2, of 2048 0
      "example_world\<lparr>recv_q := [Datagram [1, 2, 3]]\<rparr>"] h1 h2 h3
  show ?thesis by blast
qed

subsection \<open>The send path\<close>

lemma chain_unfold: "chain m = m # (case next_seg m of None \<Rightarrow> [] | Some m' \<Rightarrow> chain m')"
  by (cases m rule: chain.cases) auto

lemma fill_iov_chain:
  "fill_iov n (Some m) =
     (if n \<le> length (chain m) then Some (map seg_iov (take n (chain m))) else None)"
proof (induction n arbitrary: m)
  case 0
  then show ?case by simp
next
  case (Suc n)
  show ?case
  proof (cases "next_seg m")
    case None
    then show ?thesis
      by (cases n) (simp_all add: chain_unfold [of m] seg_iov_def)
  next
    case (Some m')
    then show ?thesis
      using Suc.IH [of m'] by (simp add: chain_unfold [of m] seg_iov_def)
  qed
qed

lemma gathered_seg_iov: "gathered (map seg_iov ms) = concat (map seg_bytes ms)"
  by (induction ms) (simp_all add: gathered_def seg_iov_def seg_bytes_def)

lemma fill_iov_well_formed:
  "well_formed pkt \<Longrightarrow>
     fill_iov (nb_segs (mbuf pkt)) (Some (mbuf pkt)) = Some (map seg_iov (chain (mbuf pkt)))"
  by (simp add: well_formed_def fill_iov_chain)



lemma send_frame_refl: "send_frame w w"
  by (simp add: send_frame_def)

lemma send_frame_trans: "send_frame w w1 \<Longrightarrow> send_frame w1 w2 \<Longrightarrow> send_frame w w2"
  by (simp add: send_frame_def)

lemma sendmsg_frame: "sendmsg fd iov w = (ret, w') \<Longrightarrow> send_frame w w'"
  by (auto simp: sendmsg_def send_frame_def split: prod.splits sum.splits)

lemma sendmsg_cases:
  assumes "sendmsg fd iov w = (ret, w')"
  shows "sendmsg_calls w' = sendmsg_calls w @ [\<lparr>sm_fd = fd, sm_iov = iov, sm_ret = ret\<rparr>] \<and>
         (if ret < 0 then ret = - 1 \<and> wire w' = wire w
          else ret = int (length (gathered iov)) \<and> wire w' = wire w @ [gathered iov])"
  using assms by (auto simp: sendmsg_def split: prod.splits sum.splits)

lemma sendmsg_not_open:
  "\<not> is_open w fd \<Longrightarrow> fst (sendmsg fd iov w) = - 1"
  by (simp add: sendmsg_def sendmsg_result_def)

lemma send_loop_spec:
  assumes "batch_ok pkts cnt"
  shows "\<exists>k w' cs. send_loop cfd pkts cnt i sent w = Inr (sent + int k, w') \<and>
           (int i \<le> cnt \<longrightarrow> int (i + k) \<le> cnt) \<and> (cnt < int i \<longrightarrow> k = 0) \<and>
           send_frame w w' \<and>
           sendmsg_calls w' = sendmsg_calls w @ cs \<and>
           map sm_fd cs = replicate (length cs) cfd \<and>
           map sm_iov cs = map pkt_iov (take (length cs) (drop i pkts)) \<and>
           (length cs = k \<or> length cs = Suc k) \<and>
           (length cs = k \<longleftrightarrow> \<not> int (i + k) < cnt) \<and>
           (\<forall>j<k. 0 \<le> sm_ret (cs ! j)) \<and>
           (length cs = Suc k \<longrightarrow> sm_ret (cs ! k) < 0) \<and>
           wire w' = wire w @ map pkt_datagram (take k (drop i pkts))"
  using assms
proof (induct cfd pkts cnt i sent w rule: send_loop.induct)
  case (1 cfd pkts cnt i sent w)
  note ok = "1.prems"
  show ?case
  proof (cases "int i < cnt")
    case False
    have "send_loop cfd pkts cnt i sent w = Inr (sent + int 0, w)"
      using False by (simp add: send_loop.simps)
    then show ?thesis
      using False
      apply (intro exI [of _ 0] exI [of _ w] exI [of _ "[]"])
      apply (simp add: send_frame_refl)
      done
  next
    case True
    then have ilen: "i < length pkts" and ncnt: "i < nat cnt"
      using ok by (auto simp: batch_ok_def)
    have wf: "well_formed (pkts ! i)"
      using ok ncnt ilen by (auto simp: batch_ok_def list_all_length)
    have fill: "fill_iov (nb_segs (mbuf (pkts ! i))) (Some (mbuf (pkts ! i))) = Some (pkt_iov (pkts ! i))"
      using wf by (simp add: fill_iov_well_formed pkt_iov_def)
    obtain ret w1 where sm: "sendmsg cfd (pkt_iov (pkts ! i)) w = (ret, w1)"
      by (cases "sendmsg cfd (pkt_iov (pkts ! i)) w")
    note fr1 = sendmsg_frame [OF sm] and sc = sendmsg_cases [OF sm]
    have dr: "drop i pkts = pkts ! i # drop (Suc i) pkts"
      using ilen by (simp add: Cons_nth_drop_Suc)
    show ?thesis
    proof (cases "ret < 0")
      case neg: True
      have "send_loop cfd pkts cnt i sent w = Inr (sent + int 0, w1)"
        using True ilen fill sm neg by (simp add: send_loop.simps [of cfd pkts cnt i])
      then show ?thesis
        using True sc fr1 neg dr
        apply (intro exI [of _ 0] exI [of _ w1] exI [of _ "[\<lparr>sm_fd = cfd, sm_iov = pkt_iov (pkts ! i), sm_ret = ret\<rparr>]"])
        apply simp
        done
    next
      case nonneg: False
      have unfold: "send_loop cfd pkts cnt i sent w = send_loop cfd pkts cnt (Suc i) (sent + 1) w1"
        using True ilen fill sm nonneg by (simp add: send_loop.simps [of cfd pkts cnt i])
      from "1.hyps" [OF True _ fill sm [symmetric] nonneg ok] ilen
      obtain k w' cs where
        r: "send_loop cfd pkts cnt (Suc i) (sent + 1) w1 = Inr (sent + 1 + int k, w')" and
        b: "int (Suc i) \<le> cnt \<longrightarrow> int (Suc i + k) \<le> cnt" and
        fr: "send_frame w1 w'" and
        calls: "sendmsg_calls w' = sendmsg_calls w1 @ cs" and
        cfds: "map sm_fd cs = replicate (length cs) cfd" and
        iovs: "map sm_iov cs = map pkt_iov (take (length cs) (drop (Suc i) pkts))" and
        len: "length cs = k \<or> length cs = Suc k" and
        leneq: "length cs = k \<longleftrightarrow> \<not> int (Suc i + k) < cnt" and
        rets: "\<forall>j<k. 0 \<le> sm_ret (cs ! j)" and
        last: "length cs = Suc k \<longrightarrow> sm_ret (cs ! k) < 0" and
        wr: "wire w' = wire w1 @ map pkt_datagram (take k (drop (Suc i) pkts))"
        by auto
      let ?c = "\<lparr>sm_fd = cfd, sm_iov = pkt_iov (pkts ! i), sm_ret = ret\<rparr>"
      have g: "gathered (pkt_iov (pkts ! i)) = pkt_datagram (pkts ! i)"
        by (simp add: pkt_iov_def pkt_datagram_def gathered_seg_iov)
      have rets': "\<forall>j<Suc k. 0 \<le> sm_ret ((?c # cs) ! j)"
        using rets nonneg by (auto simp: nth_Cons split: nat.splits)
      show ?thesis
        apply (intro exI [of _ "Suc k"] exI [of _ w'] exI [of _ "?c # cs"])
        using unfold r b True send_frame_trans [OF fr1 fr] calls sc cfds iovs len leneq rets' last wr nonneg dr g
        apply (simp del: nth_Cons_Suc)
        done
    qed
  qed
qed


lemma send_loop_frame:
  "send_loop cfd pkts cnt i sent w = Inr (n, w') \<Longrightarrow> send_frame w w'"
proof (induct cfd pkts cnt i sent w rule: send_loop.induct)
  case (1 cfd pkts cnt i sent w)
  show ?case
  proof (cases "int i < cnt")
    case False
    then show ?thesis using "1.prems" by (simp add: send_loop.simps send_frame_refl)
  next
    case True
    from "1.prems" True have ilen: "\<not> length pkts \<le> i"
      by (auto simp: send_loop.simps [of cfd pkts cnt i])
    from "1.prems" True ilen obtain iov where
      fill: "fill_iov (nb_segs (mbuf (pkts ! i))) (Some (mbuf (pkts ! i))) = Some iov"
      by (auto simp: send_loop.simps [of cfd pkts cnt i] split: option.splits)
    obtain ret w1 where sm: "sendmsg cfd iov w = (ret, w1)"
      by (cases "sendmsg cfd iov w")
    show ?thesis
    proof (cases "ret < 0")
      case True
      then have "w' = w1"
        using "1.prems" \<open>int i < cnt\<close> ilen fill sm
        by (simp add: send_loop.simps [of cfd pkts cnt i])
      then show ?thesis using sendmsg_frame [OF sm] by simp
    next
      case False
      then have "send_loop cfd pkts cnt (Suc i) (sent + 1) w1 = Inr (n, w')"
        using "1.prems" \<open>int i < cnt\<close> ilen fill sm
        by (simp add: send_loop.simps [of cfd pkts cnt i])
      from "1.hyps" [OF \<open>int i < cnt\<close> ilen fill sm [symmetric] False this]
      show ?thesis using sendmsg_frame [OF sm] by (rule send_frame_trans [rotated])
    qed
  qed
qed

lemma send_loop_not_open:
  assumes "\<not> is_open w cfd" and "send_loop cfd pkts cnt i sent w = Inr (n, w')"
  shows "n = sent \<and> wire w' = wire w \<and>
         length (sendmsg_calls w') \<le> Suc (length (sendmsg_calls w))"
proof (cases "int i < cnt")
  case False
  then show ?thesis using assms(2) by (simp add: send_loop.simps)
next
  case True
  from assms(2) True have ilen: "\<not> length pkts \<le> i"
    by (auto simp: send_loop.simps [of cfd pkts cnt i])
  from assms(2) True ilen obtain iov where
    fill: "fill_iov (nb_segs (mbuf (pkts ! i))) (Some (mbuf (pkts ! i))) = Some iov"
    by (auto simp: send_loop.simps [of cfd pkts cnt i] split: option.splits)
  obtain ret w1 where sm: "sendmsg cfd iov w = (ret, w1)"
    by (cases "sendmsg cfd iov w")
  from sendmsg_not_open [OF assms(1), of iov] sm have neg: "ret < 0" by simp
  then have "n = sent \<and> w' = w1"
    using assms(2) True ilen fill sm by (simp add: send_loop.simps [of cfd pkts cnt i])
  then show ?thesis using sendmsg_cases [OF sm] neg by simp
qed

lemma not_open_NOT_CONNECTED: "\<not> is_open w NOT_CONNECTED"
  by (simp add: is_open_def NOT_CONNECTED_def)

lemma snb_free_bulk_frame:
  "fds (snb_free_bulk pkts n w) = fds w \<and>
   pthread_create_calls (snb_free_bulk pkts n w) = pthread_create_calls w \<and>
   acceptors (snb_free_bulk pkts n w) = acceptors w \<and>
   wire (snb_free_bulk pkts n w) = wire w \<and>
   sendmsg_calls (snb_free_bulk pkts n w) = sendmsg_calls w \<and>
   recv_q (snb_free_bulk pkts n w) = recv_q w \<and>
   pool (snb_free_bulk pkts n w) = map snb_addr (take (nat n) pkts) @ pool w"
  by (simp add: snb_free_bulk_def)

lemma SendPackets_Inr:
  assumes "SendPackets qid pkts cnt (p, w) = Inr (n, p', w')"
  shows "\<exists>w1. send_loop (client_fd p) pkts cnt 0 0 w = Inr (n, w1) \<and> p' = p \<and>
           w' = (if n \<noteq> 0 then snb_free_bulk pkts n w1 else w1)"
  using assms by (auto simp: SendPackets_def Let_def split: sum.splits prod.splits)

text \<open>
  Claim C5. A send call on a well-formed batch of \<open>cnt\<close> buffers returns a number \<open>k\<close>
  between 0 and \<open>cnt\<close>. The \<open>sendmsg\<close> calls it makes are for the buffers in order, one
  call each, starting with the first: the first \<open>k\<close> calls succeed; when \<open>k < cnt\<close>
  there is exactly one more call, for buffer \<open>k + 1\<close>, which fails, and no call after it.
  Exactly the first \<open>k\<close> buffers are handed back to the allocator. The witness is the
  scenario of three buffers with the second write failing: the call returns 1 and
  releases the first buffer only.
\<close>

theorem SendPackets_stops_at_first_failure:
  assumes "batch_ok pkts cnt"
  shows "\<exists>k w' cs. SendPackets qid pkts cnt (p, w) = Inr (int k, p, w') \<and>
           int k \<le> max 0 cnt \<and>
           sendmsg_calls w' = sendmsg_calls w @ cs \<and>
           map sm_iov cs = map pkt_iov (take (length cs) pkts) \<and>
           (\<forall>j<k. 0 \<le> sm_ret (cs ! j)) \<and>
           (if int k < cnt then length cs = Suc k \<and> sm_ret (cs ! k) < 0 else length cs = k) \<and>
           pool w' = map snb_addr (take k pkts) @ pool w"
proof -
  from send_loop_spec [OF assms, of "client_fd p" 0 0 w]
  obtain k w1 cs where
    l: "send_loop (client_fd p) pkts cnt 0 0 w = Inr (int k, w1)" and
    b: "0 \<le> cnt \<longrightarrow> int k \<le> cnt" "cnt < 0 \<longrightarrow> k = 0" and
    fr: "send_frame w w1" and
    calls: "sendmsg_calls w1 = sendmsg_calls w @ cs" and
    iovs: "map sm_iov cs = map pkt_iov (take (length cs) pkts)" and
    len: "length cs = k \<or> length cs = Suc k" "length cs = k \<longleftrightarrow> \<not> int k < cnt" and
    rets: "\<forall>j<k. 0 \<le> sm_ret (cs ! j)" and
    last: "length cs = Suc k \<longrightarrow> sm_ret (cs ! k) < 0"
    by auto
  let ?w' = "if int k \<noteq> 0 then snb_free_bulk pkts (int k) w1 else w1"
  have sp: "SendPackets qid pkts cnt (p, w) = Inr (int k, p, ?w')"
    using l by (simp add: SendPackets_def)
  have pool: "pool ?w' = map snb_addr (take k pkts) @ pool w"
    using fr by (simp add: snb_free_bulk_def send_frame_def)
  have c': "sendmsg_calls ?w' = sendmsg_calls w @ cs"
    using calls by (simp add: snb_free_bulk_def)
  have bound: "int k \<le> max 0 cnt" using b by auto
  have fin: "if int k < cnt then length cs = Suc k \<and> sm_ret (cs ! k) < 0 else length cs = k"
    using len last by auto
  show ?thesis
    using sp bound c' iovs rets fin pool by blast
qed

theorem SendPackets_stops_at_first_failure_witness:
  "batch_ok example_batch 3 \<and>
   (\<exists>k w' cs. SendPackets 0 example_batch 3
                 (example_port, example_world\<lparr>send_q := [Taken, SendFailed EPIPE]\<rparr>) =
                 Inr (int k, example_port, w') \<and>
           int k \<le> max 0 3 \<and>
           sendmsg_calls w' =
             sendmsg_calls (example_world\<lparr>send_q := [Taken, SendFailed EPIPE]\<rparr>) @ cs \<and>
           map sm_iov cs = map pkt_iov (take (length cs) example_batch) \<and>
           (\<forall>j<k. 0 \<le> sm_ret (cs ! j)) \<and>
           (if int k < 3 then length cs = Suc k \<and> sm_ret (cs ! k) < 0 else length cs = k) \<and>
           pool w' = map snb_addr (take k example_batch) @
                     pool (example_world\<lparr>send_q := [Taken, SendFailed EPIPE]\<rparr>)) \<and>
   (case SendPackets 0 example_batch 3
           (example_port, example_world\<lparr>send_q := [Taken, SendFailed EPIPE]\<rparr>) of
      Inl f \<Rightarrow> None
    | Inr (n, p, w) \<Rightarrow> Some (n, pool w, map sm_ret (sendmsg_calls w), wire w)) =
     Some (1, [201, 100, 101], [2, - 1], [[1, 2]])"
proof -
  have h: "batch_ok example_batch 3" by code_simp
  have e: "(case SendPackets 0 example_batch 3
           (example_port, example_world\<lparr>send_q := [Taken, SendFailed EPIPE]\<rparr>) of
      Inl f \<Rightarrow> None
    | Inr (n, p, w) \<Rightarrow> Some (n, pool w, map sm_ret (sendmsg_calls w), wire w)) =
     Some (1, [201, 100, 101], [2, - 1], [[1, 2]])"
    by code_simp
  from SendPackets_stops_at_first_failure [OF h, of 0 example_port
      "example_world\<lparr>send_q := [Taken, SendFailed EPIPE]\<rparr>"] h e
  show ?thesis by blast
qed

text \<open>
  Claim C6. A send call that returns leaves the driver object as it was, whatever its
  writes did: the active and the retired descriptor and the idle-poll counter keep their
  values. It does not run the loss handling: the descriptor table is unchanged and no
  thread creation is requested. A call on a well-formed batch does return.
\<close>

theorem SendPackets_never_declares_loss:
  "(\<forall>n p' w'. SendPackets qid pkts cnt (p, w) = Inr (n, p', w') \<longrightarrow>
      p' = p \<and> fds w' = fds w \<and> pthread_create_calls w' = pthread_create_calls w \<and>
      acceptors w' = acceptors w) \<and>
   (batch_ok pkts cnt \<longrightarrow> (\<exists>n w'. SendPackets qid pkts cnt (p, w) = Inr (n, p, w')))"
proof (intro conjI allI impI)
  fix n p' w'
  assume a: "SendPackets qid pkts cnt (p, w) = Inr (n, p', w')"
  from SendPackets_Inr [OF a] obtain w1 where
    l: "send_loop (client_fd p) pkts cnt 0 0 w = Inr (n, w1)" and p: "p' = p" and
    w': "w' = (if n \<noteq> 0 then snb_free_bulk pkts n w1 else w1)" by blast
  from send_loop_frame [OF l] have f: "send_frame w w1" .
  show "p' = p" by (rule p)
  show "fds w' = fds w" using f w' by (simp add: send_frame_def snb_free_bulk_frame)
  show "pthread_create_calls w' = pthread_create_calls w"
    using f w' by (simp add: send_frame_def snb_free_bulk_frame)
  show "acceptors w' = acceptors w" using f w' by (simp add: send_frame_def snb_free_bulk_frame)
next
  assume "batch_ok pkts cnt"
  from send_loop_spec [OF this, of "client_fd p" 0 0 w]
  obtain k w1 where "send_loop (client_fd p) pkts cnt 0 0 w = Inr (int k, w1)" by auto
  then show "\<exists>n w'. SendPackets qid pkts cnt (p, w) = Inr (n, p, w')"
    by (simp add: SendPackets_def)
qed


theorem SendPackets_never_declares_loss_witness:
  "batch_ok example_batch 3 \<and>
   (\<exists>n w'. SendPackets 0 example_batch 3
              (example_port, example_world\<lparr>send_q := [SendFailed EPIPE]\<rparr>) =
              Inr (n, example_port, w') \<and>
            fds w' = fds (example_world\<lparr>send_q := [SendFailed EPIPE]\<rparr>) \<and>
            pthread_create_calls w' =
              pthread_create_calls (example_world\<lparr>send_q := [SendFailed EPIPE]\<rparr>) \<and>
            acceptors w' = acceptors (example_world\<lparr>send_q := [SendFailed EPIPE]\<rparr>))"
proof -
  let ?w = "example_world\<lparr>send_q := [SendFailed EPIPE]\<rparr>"
  have h: "batch_ok example_batch 3" by code_simp
  note t = SendPackets_never_declares_loss [of 0 example_batch 3 example_port ?w]
  from t h obtain n w' where
    r: "SendPackets 0 example_batch 3 (example_port, ?w) = Inr (n, example_port, w')"
    by blast
  from t r have "fds w' = fds ?w \<and> pthread_create_calls w' = pthread_create_calls ?w \<and>
                 acceptors w' = acceptors ?w"
    by blast
  with h r show ?thesis by blast
qed

text \<open>
  Claim C7. While no connection is active (\<open>client_fd_\<close> is \<open>NOT_CONNECTED\<close>) a receive
  call returns 0 with no buffer and changes nothing. A send call that returns then
  returns 0, leaves the driver object unchanged, hands no buffer to the allocator and
  puts nothing on the wire: its first \<open>sendmsg\<close> fails at once on the invalid
  descriptor. On a well-formed batch it does return.
\<close>

theorem not_connected_calls_are_noops:
  assumes "client_fd p = NOT_CONNECTED"
  shows "RecvPackets cap qid cnt (p, w) = (0, [], p, w) \<and>
         (\<forall>n p' w'. SendPackets qid' pkts cnt' (p, w) = Inr (n, p', w') \<longrightarrow>
            n = 0 \<and> p' = p \<and> send_frame w w' \<and> wire w' = wire w) \<and>
         (batch_ok pkts cnt' \<longrightarrow> (\<exists>w'. SendPackets qid' pkts cnt' (p, w) = Inr (0, p, w')))"
proof (intro conjI allI impI)
  show "RecvPackets cap qid cnt (p, w) = (0, [], p, w)"
    using assms by (simp add: RecvPackets_def)
next
  fix n p' w'
  assume a: "SendPackets qid' pkts cnt' (p, w) = Inr (n, p', w')"
  from SendPackets_Inr [OF a] obtain w1 where
    l: "send_loop (client_fd p) pkts cnt' 0 0 w = Inr (n, w1)" and p: "p' = p" and
    w': "w' = (if n \<noteq> 0 then snb_free_bulk pkts n w1 else w1)" by blast
  have no: "\<not> is_open w (client_fd p)" using assms not_open_NOT_CONNECTED by simp
  from send_loop_not_open [OF no l] have n: "n = 0" and wr: "wire w1 = wire w" by simp_all
  show "n = 0" by (rule n)
  show "p' = p" by (rule p)
  show "send_frame w w'" using send_loop_frame [OF l] w' n by simp
  show "wire w' = wire w" using wr w' n by simp
next
  assume ok: "batch_ok pkts cnt'"
  from send_loop_spec [OF this, of "client_fd p" 0 0 w]
  obtain k w1 where l: "send_loop (client_fd p) pkts cnt' 0 0 w = Inr (int k, w1)" by auto
  have no: "\<not> is_open w (client_fd p)" using assms not_open_NOT_CONNECTED by simp
  from send_loop_not_open [OF no l] have "int k = 0" by simp
  then show "\<exists>w'. SendPackets qid' pkts cnt' (p, w) = Inr (0, p, w')"
    using l by (simp add: SendPackets_def)
qed

theorem not_connected_calls_are_noops_witness:
  "client_fd (example_port\<lparr>client_fd := NOT_CONNECTED\<rparr>) = NOT_CONNECTED \<and>
   batch_ok example_batch 3 \<and>
   RecvPackets 2048 0 32 (example_port\<lparr>client_fd := NOT_CONNECTED\<rparr>, example_world) =
     (0, [], example_port\<lparr>client_fd := NOT_CONNECTED\<rparr>, example_world) \<and>
   (\<exists>w'. SendPackets 0 example_batch 3
            (example_port\<lparr>client_fd := NOT_CONNECTED\<rparr>, example_world) =
            Inr (0, example_port\<lparr>client_fd := NOT_CONNECTED\<rparr>, w') \<and>
          send_frame example_world w' \<and> wire w' = wire example_world)"
proof -
  let ?p = "example_port\<lparr>client_fd := NOT_CONNECTED\<rparr>"
  have h: "client_fd ?p = NOT_CONNECTED" by simp
  have b: "batch_ok example_batch 3" by code_simp
  note t = not_connected_calls_are_noops [OF h, of 2048 0 32 example_world 0 example_batch 3]
  from t have r: "RecvPackets 2048 0 32 (?p, example_world) = (0, [], ?p, example_world)"
    by blast
  from t b obtain w' where
    s: "SendPackets 0 example_batch 3 (?p, example_world) = Inr (0, ?p, w')"
    by blast
  from t s have "send_frame example_world w' \<and> wire w' = wire example_world"
    by blast
  with h b r s show ?thesis by blast
qed

lemma sendmsg_taken:
  assumes "is_open w fd" and "send_q w = [] \<or> hd (send_q w) = Taken"
  shows "\<exists>w'. sendmsg fd iov w = (int (length (gathered iov)), w') \<and>
              send_q w' = tl (send_q w) \<and> fds w' = fds w"
  using assms
  by (cases "send_q w") (auto simp: sendmsg_def sendmsg_result_def split: send_event.splits)

lemma send_loop_all_taken:
  assumes "batch_ok pkts cnt" and "is_open w cfd"
    and "list_all (\<lambda>e. e = Taken) (take (nat cnt - i) (send_q w))" and "int i \<le> cnt"
  shows "\<exists>w'. send_loop cfd pkts cnt i sent w = Inr (sent + (cnt - int i), w')"
  using assms
proof (induct cfd pkts cnt i sent w rule: send_loop.induct)
  case (1 cfd pkts cnt i sent w)
  note ok = "1.prems"(1) and op = "1.prems"(2) and tk = "1.prems"(3) and le = "1.prems"(4)
  show ?case
  proof (cases "int i < cnt")
    case False
    with le have "cnt - int i = 0" by simp
    then show ?thesis using False by (simp add: send_loop.simps)
  next
    case True
    then have ilen: "\<not> length pkts \<le> i" and ncnt: "i < nat cnt"
      using ok by (auto simp: batch_ok_def)
    have wf: "well_formed (pkts ! i)"
      using ok ncnt ilen by (auto simp: batch_ok_def list_all_length)
    have fill: "fill_iov (nb_segs (mbuf (pkts ! i))) (Some (mbuf (pkts ! i))) = Some (pkt_iov (pkts ! i))"
      using wf by (simp add: fill_iov_well_formed pkt_iov_def)
    from ncnt obtain m where m: "nat cnt - i = Suc m" by (cases "nat cnt - i") auto
    have hd: "send_q w = [] \<or> hd (send_q w) = Taken"
      using tk m by (cases "send_q w") auto
    from sendmsg_taken [OF op hd, of "pkt_iov (pkts ! i)"] obtain w1 where
      sm: "sendmsg cfd (pkt_iov (pkts ! i)) w = (int (length (gathered (pkt_iov (pkts ! i)))), w1)"
      and q1: "send_q w1 = tl (send_q w)" and f1: "fds w1 = fds w" by blast
    have nonneg: "\<not> int (length (gathered (pkt_iov (pkts ! i)))) < 0" by simp
    have op1: "is_open w1 cfd" using op f1 by (simp add: is_open_def)
    have m': "nat cnt - Suc i = m" using m by simp
    have tk1: "list_all (\<lambda>e. e = Taken) (take (nat cnt - Suc i) (send_q w1))"
      using tk m q1 by (cases "send_q w") (auto simp: m')
    have le1: "int (Suc i) \<le> cnt" using True by simp
    from "1.hyps" [OF True ilen fill sm [symmetric] nonneg ok op1 tk1 le1]
    obtain w' where
      "send_loop cfd pkts cnt (Suc i) (sent + 1) w1 = Inr (sent + 1 + (cnt - int (Suc i)), w')"
      by blast
    then show ?thesis
      using True ilen fill sm by (simp add: send_loop.simps [of cfd pkts cnt i])
  qed
qed


text \<open>
  Claim C8. A send call on a well-formed batch makes its \<open>sendmsg\<close> calls for the
  buffers in order, exactly one call for each buffer it gets to: one for each of the
  \<open>k\<close> buffers sent and, when \<open>k < cnt\<close>, one more, the failing call for the next
  buffer. The gather list of the j-th call has one entry per segment of the j-th
  buffer, in the order of the chain, and the datagram such a list denotes is the
  concatenation of the segments' bytes. The datagrams put on the wire are these
  concatenations for the buffers sent. When the descriptor is open and the kernel
  takes every datagram, every buffer of the batch is sent. For a batch of one buffer
  this is exactly one call; the witness is a buffer of three segments of 2, 1 and 3
  bytes, sent as one datagram of 6 bytes.
\<close>

theorem SendPackets_one_gather_write_per_buffer:
  assumes "batch_ok pkts cnt"
  shows "\<exists>k w' cs. SendPackets qid pkts cnt (p, w) = Inr (int k, p, w') \<and>
           sendmsg_calls w' = sendmsg_calls w @ cs \<and>
           int k \<le> max 0 cnt \<and>
           length cs = (if int k < cnt then Suc k else k) \<and>
           (\<forall>j<length cs. sm_fd (cs ! j) = client_fd p \<and>
                          sm_iov (cs ! j) = map seg_iov (chain (mbuf (pkts ! j))) \<and>
                          gathered (sm_iov (cs ! j)) =
                            concat (map seg_bytes (chain (mbuf (pkts ! j))))) \<and>
           (\<forall>j<k. 0 \<le> sm_ret (cs ! j)) \<and>
           (int k < cnt \<longrightarrow> sm_ret (cs ! k) < 0) \<and>
           wire w' = wire w @ map (\<lambda>pkt. concat (map seg_bytes (chain (mbuf pkt)))) (take k pkts) \<and>
           (is_open w (client_fd p) \<and> list_all (\<lambda>e. e = Taken) (take (nat cnt) (send_q w)) \<longrightarrow>
              k = nat cnt)"
proof -
  from send_loop_spec [OF assms, of "client_fd p" 0 0 w]
  obtain k w1 cs where
    l: "send_loop (client_fd p) pkts cnt 0 0 w = Inr (int k, w1)" and
    b: "0 \<le> cnt \<longrightarrow> int k \<le> cnt" "cnt < 0 \<longrightarrow> k = 0" and
    calls: "sendmsg_calls w1 = sendmsg_calls w @ cs" and
    cfds: "map sm_fd cs = replicate (length cs) (client_fd p)" and
    iovs: "map sm_iov cs = map pkt_iov (take (length cs) pkts)" and
    len: "length cs = k \<or> length cs = Suc k" "length cs = k \<longleftrightarrow> \<not> int k < cnt" and
    rets: "\<forall>j<k. 0 \<le> sm_ret (cs ! j)" and
    last: "length cs = Suc k \<longrightarrow> sm_ret (cs ! k) < 0" and
    wr: "wire w1 = wire w @ map pkt_datagram (take k pkts)"
    by auto
  let ?w' = "if int k \<noteq> 0 then snb_free_bulk pkts (int k) w1 else w1"
  have sp: "SendPackets qid pkts cnt (p, w) = Inr (int k, p, ?w')"
    using l by (simp add: SendPackets_def)
  have c': "sendmsg_calls ?w' = sendmsg_calls w @ cs"
    using calls by (simp add: snb_free_bulk_def)
  have bound: "int k \<le> max 0 cnt" using b by auto
  have lcs: "length cs = (if int k < cnt then Suc k else k)" using len by auto
  have fail: "int k < cnt \<longrightarrow> sm_ret (cs ! k) < 0" using len last by auto
  have lp: "length cs \<le> length pkts"
    using lcs bound assms by (auto simp: batch_ok_def split: if_splits)
  have each: "\<forall>j<length cs. sm_fd (cs ! j) = client_fd p \<and>
                sm_iov (cs ! j) = map seg_iov (chain (mbuf (pkts ! j))) \<and>
                gathered (sm_iov (cs ! j)) = concat (map seg_bytes (chain (mbuf (pkts ! j))))"
  proof (intro allI impI)
    fix j assume j: "j < length cs"
    have "sm_fd (cs ! j) = map sm_fd cs ! j" using j by simp
    also have "\<dots> = client_fd p" using j by (simp add: cfds)
    finally have 1: "sm_fd (cs ! j) = client_fd p" .
    have "sm_iov (cs ! j) = map sm_iov cs ! j" using j by simp
    also have "\<dots> = pkt_iov (pkts ! j)" using j lp by (simp add: iovs)
    finally have 2: "sm_iov (cs ! j) = map seg_iov (chain (mbuf (pkts ! j)))"
      by (simp add: pkt_iov_def)
    show "sm_fd (cs ! j) = client_fd p \<and>
          sm_iov (cs ! j) = map seg_iov (chain (mbuf (pkts ! j))) \<and>
          gathered (sm_iov (cs ! j)) = concat (map seg_bytes (chain (mbuf (pkts ! j))))"
      using 1 2 by (simp add: gathered_seg_iov)
  qed
  have wr': "wire ?w' = wire w @ map (\<lambda>pkt. concat (map seg_bytes (chain (mbuf pkt)))) (take k pkts)"
    using wr by (simp add: snb_free_bulk_def pkt_datagram_def [abs_def])
  have all: "is_open w (client_fd p) \<and> list_all (\<lambda>e. e = Taken) (take (nat cnt) (send_q w)) \<longrightarrow>
              k = nat cnt"
  proof
    assume a: "is_open w (client_fd p) \<and> list_all (\<lambda>e. e = Taken) (take (nat cnt) (send_q w))"
    show "k = nat cnt"
    proof (cases "0 \<le> cnt")
      case False
      with b show ?thesis by simp
    next
      case True
      from a have op: "is_open w (client_fd p)"
        and tk: "list_all (\<lambda>e. e = Taken) (take (nat cnt - 0) (send_q w))" by simp_all
      from True have le: "int 0 \<le> cnt" by simp
      from send_loop_all_taken [OF assms op tk le, of 0] l have "int k = cnt" by auto
      then show ?thesis by simp
    qed
  qed
  show ?thesis
    using sp c' bound lcs each rets fail wr' all by blast
qed

theorem SendPackets_one_gather_write_per_buffer_witness:
  "batch_ok [example_chained] 1 \<and>
   is_open example_world (client_fd example_port) \<and>
   (\<exists>k w' cs. SendPackets 0 [example_chained] 1 (example_port, example_world) =
                 Inr (int k, example_port, w') \<and>
           sendmsg_calls w' = sendmsg_calls example_world @ cs \<and>
           length cs = 1 \<and> k = 1 \<and>
           sm_fd (cs ! 0) = client_fd example_port \<and>
           sm_iov (cs ! 0) = map seg_iov (chain (mbuf example_chained)) \<and>
           gathered (sm_iov (cs ! 0)) = concat (map seg_bytes (chain (mbuf example_chained))) \<and>
           0 \<le> sm_ret (cs ! 0) \<and>
           wire w' = wire example_world @ [concat (map seg_bytes (chain (mbuf example_chained)))]) \<and>
   map (length \<circ> seg_bytes) (chain (mbuf example_chained)) = [2, 1, 3] \<and>
   concat (map seg_bytes (chain (mbuf example_chained))) = [10, 11, 12, 13, 14, 15]"
proof -
  have h: "batch_ok [example_chained] 1" by code_simp
  have o: "is_open example_world (client_fd example_port)" by code_simp
  have q: "list_all (\<lambda>e. e = Taken) (take (nat 1) (send_q example_world))"
    by (simp add: example_world_def)
  have s: "map (length \<circ> seg_bytes) (chain (mbuf example_chained)) = [2, 1, 3]"
    "concat (map seg_bytes (chain (mbuf example_chained))) = [10, 11, 12, 13, 14, 15]"
    by code_simp+
  from SendPackets_one_gather_write_per_buffer [OF h, of 0 example_port example_world]
  obtain k w' cs where
    r: "SendPackets 0 [example_chained] 1 (example_port, example_world) =
          Inr (int k, example_port, w')"
    and c: "sendmsg_calls w' = sendmsg_calls example_world @ cs"
    and l: "length cs = (if int k < 1 then Suc k else k)"
    and e: "\<forall>j<length cs. sm_fd (cs ! j) = client_fd example_port \<and>
              sm_iov (cs ! j) = map seg_iov (chain (mbuf ([example_chained] ! j))) \<and>
              gathered (sm_iov (cs ! j)) =
                concat (map seg_bytes (chain (mbuf ([example_chained] ! j))))"
    and rt: "\<forall>j<k. 0 \<le> sm_ret (cs ! j)"
    and wr: "wire w' = wire example_world @
               map (\<lambda>pkt. concat (map seg_bytes (chain (mbuf pkt)))) (take k [example_chained])"
    and a: "is_open example_world (client_fd example_port) \<and>
            list_all (\<lambda>e. e = Taken) (take (nat 1) (send_q example_world)) \<longrightarrow> k = nat 1"
    by blast
  from a o q have k: "k = 1" by simp
  with l have l1: "length cs = 1" by simp
  from e l1 have e0: "sm_fd (cs ! 0) = client_fd example_port \<and>
           sm_iov (cs ! 0) = map seg_iov (chain (mbuf example_chained)) \<and>
           gathered (sm_iov (cs ! 0)) = concat (map seg_bytes (chain (mbuf example_chained)))"
    by (simp add: gathered_seg_iov)
  from rt k have r0: "0 \<le> sm_ret (cs ! 0)" by simp
  from wr k have w1: "wire w' = wire example_world @ [concat (map seg_bytes (chain (mbuf example_chained)))]"
    by simp
  from r c l1 k e0 r0 w1
  have "\<exists>k w' cs. SendPackets 0 [example_chained] 1 (example_port, example_world) =
                 Inr (int k, example_port, w') \<and>
           sendmsg_calls w' = sendmsg_calls example_world @ cs \<and>
           length cs = 1 \<and> k = 1 \<and>
           sm_fd (cs ! 0) = client_fd example_port \<and>
           sm_iov (cs ! 0) = map seg_iov (chain (mbuf example_chained)) \<and>
           gathered (sm_iov (cs ! 0)) = concat (map seg_bytes (chain (mbuf example_chained))) \<and>
           0 \<le> sm_ret (cs ! 0) \<and>
           wire w' = wire example_world @ [concat (map seg_bytes (chain (mbuf example_chained)))]"
    by blast
  with h o s show ?thesis by blast
qed

subsection \<open>The receive path\<close>

text \<open>What recv leaves alone, and what it returns.\<close>

lemma recv_result:
  assumes "recv fd pkt len w = (ret, pkt1, w')"
  shows "pool w' = pool w \<and> fds w' = fds w \<and> allocs w' = allocs w \<and>
         recv_calls w' = Suc (recv_calls w) \<and> snb_addr pkt1 = snb_addr pkt \<and>
         ret \<le> int len \<and> - 1 \<le> ret \<and>
         nb_segs (mbuf pkt1) = nb_segs (mbuf pkt) \<and> next_seg (mbuf pkt1) = next_seg (mbuf pkt) \<and>
         data_len (mbuf pkt1) = data_len (mbuf pkt) \<and>
         spawn_q w' = spawn_q w \<and> acceptors w' = acceptors w \<and>
         pthread_create_calls w' = pthread_create_calls w \<and> logs w' = logs w \<and>
         wire w' = wire w \<and> sendmsg_calls w' = sendmsg_calls w \<and> send_q w' = send_q w \<and>
         accept_q w' = accept_q w"
  using assms
  by (cases "mbuf pkt")
     (auto simp: recv_def Let_def write_data_def split: if_splits list.splits recv_event.splits)

lemma recv_datagram:
  assumes "is_open w fd" and "recv_q w = Datagram d # es"
  shows "recv fd pkt len w =
           (int (min (length d) len), write_data pkt (take len d),
            w\<lparr>recv_calls := Suc (recv_calls w), recv_q := es\<rparr>)"
  using assms by (simp add: recv_def Let_def)


lemma CloseConnection_world:
  "pool (snd (CloseConnection (p, w))) = pool w \<and> fds (snd (CloseConnection (p, w))) = fds w \<and>
   recv_q (snd (CloseConnection (p, w))) = recv_q w \<and>
   allocs (snd (CloseConnection (p, w))) = allocs w \<and>
   recv_calls (snd (CloseConnection (p, w))) = recv_calls w \<and>
   pthread_create_calls (snd (CloseConnection (p, w))) = Suc (pthread_create_calls w)"
  by (simp add: CloseConnection_def pthread_create_def log_err_def Let_def
           split: list.splits prod.splits)

lemma CloseConnection_port:
  "fst (CloseConnection (p, w)) =
     p\<lparr>old_client_fd := client_fd p, client_fd := NOT_CONNECTED, accept_thread := 0\<rparr>"
  by (simp add: CloseConnection_def Let_def split: prod.splits)

lemma recv_body_no_buffer:
  "pool w = [] \<Longrightarrow> recv_body cap cfd received pkts p w = Break (received, pkts, p, w)"
  by (simp add: recv_body_def snb_alloc_def)

lemma recv_body_allocated:
  assumes "snb_alloc cap w = (Some pkt, w1)" and "recv cfd pkt cap w1 = (ret, pkt1, w2)"
  shows "recv_body cap cfd received pkts p w =
     (if 0 < ret then Continue (received + 1, pkts @ [snb_append pkt1 ret], p, w2)
      else if ret < 0 \<and> (errno w2 = EAGAIN \<or> errno w2 = EWOULDBLOCK) then
        Break (received, pkts, p, snb_free pkt1 w2)
      else if ret < 0 \<and> errno w2 = EINTR then
        Continue (received, pkts, p, snb_free pkt1 w2)
      else
        Break (received, pkts, fst (CloseConnection (p, snb_free pkt1 w2)),
               snd (CloseConnection (p, snb_free pkt1 w2))))"
  using assms by (auto simp: recv_body_def Let_def snb_free_def case_prod_beta)

lemma snb_alloc_Some:
  assumes "snb_alloc cap w = (Some pkt, w1)"
  shows "\<exists>a as. pool w = a # as \<and> pkt = \<lparr>snb_addr = a, mbuf = Mbuf (replicate cap 0) 0 1 None\<rparr> \<and>
           w1 = w\<lparr>pool := as, allocs := Suc (allocs w)\<rparr>"
  using assms by (auto simp: snb_alloc_def split: list.splits)

lemma snb_alloc_None:
  assumes "snb_alloc cap w = (None, w1)"
  shows "pool w = [] \<and> w1 = w"
  using assms by (auto simp: snb_alloc_def split: list.splits)

lemma snb_append_fields:
  "snb_addr (snb_append pkt n) = snb_addr pkt \<and>
   data_len (mbuf (snb_append pkt n)) = data_len (mbuf pkt) + nat n \<and>
   buf (mbuf (snb_append pkt n)) = buf (mbuf pkt)"
  by (cases "mbuf pkt") (simp add: snb_append_def)

text \<open>One pass through the loop body, by its outcome.\<close>

lemma recv_body_Continue:
  assumes "recv_body cap cfd received pkts p w = Continue (r', ps', q', v')"
  shows "q' = p \<and> fds v' = fds w \<and>
         ((\<exists>a as pkt1 ret. pool w = a # as \<and> 0 < ret \<and> ret \<le> int cap \<and> r' = received + 1 \<and>
              ps' = pkts @ [snb_append pkt1 ret] \<and> snb_addr pkt1 = a \<and>
              data_len (mbuf pkt1) = 0 \<and> pool v' = as) \<or>
          (r' = received \<and> ps' = pkts \<and> pool v' = pool w))"
proof (cases "snb_alloc cap w")
  case (Pair po w1)
  show ?thesis
  proof (cases po)
    case None
    with Pair snb_alloc_None [of cap w w1] assms show ?thesis
      by (simp add: recv_body_no_buffer)
  next
    case (Some pkt)
    with Pair have al: "snb_alloc cap w = (Some pkt, w1)" by simp
    from snb_alloc_Some [OF al] obtain a as where
      pw: "pool w = a # as" and pkt: "pkt = \<lparr>snb_addr = a, mbuf = Mbuf (replicate cap 0) 0 1 None\<rparr>"
      and w1: "w1 = w\<lparr>pool := as, allocs := Suc (allocs w)\<rparr>" by blast
    obtain ret pkt1 w2 where rc: "recv cfd pkt cap w1 = (ret, pkt1, w2)"
      by (cases "recv cfd pkt cap w1")
    note rr = recv_result [OF rc]
    from assms recv_body_allocated [OF al rc, of received pkts p]
    show ?thesis using rr pw pkt w1
      by (auto simp: snb_free_def split: if_splits)
  qed
qed

lemma recv_body_Break:
  assumes "recv_body cap cfd received pkts p w = Break (r', ps', q', v')"
  shows "r' = received \<and> ps' = pkts \<and> pool v' = pool w \<and> fds v' = fds w \<and>
         (q' = p \<or> q' = p\<lparr>old_client_fd := client_fd p, client_fd := NOT_CONNECTED,
                             accept_thread := 0\<rparr>)"
proof (cases "snb_alloc cap w")
  case (Pair po w1)
  show ?thesis
  proof (cases po)
    case None
    with Pair snb_alloc_None [of cap w w1] assms show ?thesis
      by (simp add: recv_body_no_buffer)
  next
    case (Some pkt)
    with Pair have al: "snb_alloc cap w = (Some pkt, w1)" by simp
    from snb_alloc_Some [OF al] obtain a as where
      pw: "pool w = a # as" and pkt: "pkt = \<lparr>snb_addr = a, mbuf = Mbuf (replicate cap 0) 0 1 None\<rparr>"
      and w1: "w1 = w\<lparr>pool := as, allocs := Suc (allocs w)\<rparr>" by blast
    obtain ret pkt1 w2 where rc: "recv cfd pkt cap w1 = (ret, pkt1, w2)"
      by (cases "recv cfd pkt cap w1")
    note rr = recv_result [OF rc]
    from assms recv_body_allocated [OF al rc, of received pkts p]
    show ?thesis using rr pw pkt w1
      by (auto simp: snb_free_def CloseConnection_world CloseConnection_port split: if_splits)
  qed
qed

lemma recv_loop_invariant:
  assumes init: "I received pkts p w"
    and cont: "\<And>r ps q v r' ps' q' v'. I r ps q v \<Longrightarrow> r < cnt \<Longrightarrow>
                 recv_body cap cfd r ps q v = Continue (r', ps', q', v') \<Longrightarrow> I r' ps' q' v'"
    and brk: "\<And>r ps q v r' ps' q' v'. I r ps q v \<Longrightarrow> r < cnt \<Longrightarrow>
                 recv_body cap cfd r ps q v = Break (r', ps', q', v') \<Longrightarrow> I r' ps' q' v'"
  shows "case recv_loop cap cfd cnt received pkts p w of (r', ps', q', v') \<Rightarrow> I r' ps' q' v'"
  using assms
proof (induct cap cfd cnt received pkts p w rule: recv_loop.induct)
  case (1 cap cfd cnt received pkts p w)
  note init = "1.prems"(1) and cont = "1.prems"(2) and brk = "1.prems"(3)
  show ?case
  proof (cases "received < cnt")
    case False
    then show ?thesis using init by (simp add: recv_loop.simps)
  next
    case True
    show ?thesis
    proof (cases "recv_body cap cfd received pkts p w")
      case (Continue st)
      obtain r' ps' q' v' where st: "st = (r', ps', q', v')" by (cases st) auto
      have "I r' ps' q' v'" using cont [OF init True] Continue st by simp
      then have "case recv_loop cap cfd cnt r' ps' q' v' of (r', ps', q', v') \<Rightarrow> I r' ps' q' v'"
        by (rule "1.hyps" [OF True Continue st [symmetric] refl refl]) (erule (2) cont, erule (2) brk)
      then show ?thesis using True Continue st by (simp add: recv_loop.simps [of cap cfd cnt received])
    next
      case (Break st)
      obtain r' ps' q' v' where st: "st = (r', ps', q', v')" by (cases st) auto
      have "I r' ps' q' v'" using brk [OF init True] Break st by simp
      then show ?thesis using True Break st by (simp add: recv_loop.simps [of cap cfd cnt received])
    qed
  qed
qed


lemma recv_loop_accounting:
  assumes "recv_loop cap cfd cnt 0 [] p w = (n, ps, p', w')"
  shows "n = int (length ps) \<and> map snb_addr ps = take (length ps) (pool w) \<and>
         pool w' = drop (length ps) (pool w) \<and> fds w' = fds w \<and>
         (\<forall>pkt\<in>set ps. 0 < data_len (mbuf pkt) \<and> data_len (mbuf pkt) \<le> cap)"
proof -
  let ?I = "\<lambda>r ps (q :: UnixSocketPort) v.
      r = int (length ps) \<and> map snb_addr ps = take (length ps) (pool w) \<and>
      pool v = drop (length ps) (pool w) \<and> fds v = fds w \<and>
      (\<forall>pkt\<in>set ps. 0 < data_len (mbuf pkt) \<and> data_len (mbuf pkt) \<le> cap)"
  have "case recv_loop cap cfd cnt 0 [] p w of (r', ps', q', v') \<Rightarrow> ?I r' ps' q' v'"
  proof (rule recv_loop_invariant [where I = ?I])
    show "?I 0 [] p w" by simp
  next
    fix r ps q v r' ps' q' v'
    assume I: "?I r ps q v" and "r < cnt"
      and b: "recv_body cap cfd r ps q v = Continue (r', ps', q', v')"
    from recv_body_Continue [OF b] I show "?I r' ps' q' v'"
    proof (elim conjE disjE exE)
      fix a as pkt1 ret
      assume pv: "pool v = a # as" and ret: "0 < ret" "ret \<le> int cap"
        and r': "r' = r + 1" and ps': "ps' = ps @ [snb_append pkt1 ret]"
        and ad: "snb_addr pkt1 = a" and dl: "data_len (mbuf pkt1) = 0" and pv': "pool v' = as"
        and fv: "fds v' = fds v"
      from I pv have d: "drop (length ps) (pool w) = a # as" by simp
      then have lt: "length ps < length (pool w)" by (cases "length ps < length (pool w)") auto
      from d have "pool w ! length ps = a"
        by (metis lt nth_via_drop)
      then have t: "take (Suc (length ps)) (pool w) = take (length ps) (pool w) @ [a]"
        using lt by (simp add: take_Suc_conv_app_nth)
      from d have dd: "drop (Suc (length ps)) (pool w) = as"
        by (metis drop_Suc tl_drop list.sel(3))
      show ?thesis
        using I r' ps' ad dl pv' fv ret t dd by (auto simp: snb_append_fields)
    next
      assume "r' = r" "ps' = ps" "pool v' = pool v" "fds v' = fds v"
      with I show ?thesis by simp
    qed
  next
    fix r ps q v r' ps' q' v'
    assume I: "?I r ps q v" and "r < cnt"
      and b: "recv_body cap cfd r ps q v = Break (r', ps', q', v')"
    from recv_body_Break [OF b] I show "?I r' ps' q' v'" by simp
  qed
  with assms show ?thesis by simp
qed

lemma RecvPackets_accounting:
  assumes "RecvPackets cap qid cnt (p, w) = (n, ps, p', w')"
  shows "n = int (length ps) \<and> map snb_addr ps = take (length ps) (pool w) \<and>
         pool w' = drop (length ps) (pool w) \<and> fds w' = fds w \<and>
         (\<forall>pkt\<in>set ps. 0 < data_len (mbuf pkt) \<and> data_len (mbuf pkt) \<le> cap)"
proof (cases "client_fd p = NOT_CONNECTED \<or> recv_skip_cnt p \<noteq> 0")
  case True
  with assms show ?thesis by (auto simp: RecvPackets_def Let_def split: if_splits)
next
  case False
  obtain n1 ps1 p1 w1 where l: "recv_loop cap (client_fd p) cnt 0 [] p w = (n1, ps1, p1, w1)"
    by (cases "recv_loop cap (client_fd p) cnt 0 [] p w") auto
  with assms False have "n = n1" "ps = ps1" "w' = w1"
    by (simp_all add: RecvPackets_def Let_def)
  with recv_loop_accounting [OF l] show ?thesis by simp
qed



lemma write_data_fields:
  "snb_addr (write_data pkt bs) = snb_addr pkt \<and>
   data_len (mbuf (write_data pkt bs)) = data_len (mbuf pkt) \<and>
   buf (mbuf (write_data pkt bs)) = bs @ drop (length bs) (buf (mbuf pkt))"
  by (cases "mbuf pkt") (simp add: write_data_def)

lemma recv_body_datagram:
  assumes op: "is_open w cfd" and q: "recv_q w = Datagram d # es" and pw: "pool w = a # as"
    and d: "d \<noteq> []" and cap: "0 < cap"
  shows "\<exists>b w'. recv_body cap cfd received pkts p w = Continue (received + 1, pkts @ [b], p, w') \<and>
           snb_addr b = a \<and> snb_bytes b = take cap d \<and> data_len (mbuf b) = min (length d) cap \<and>
           recv_q w' = es \<and> pool w' = as \<and> fds w' = fds w"
proof -
  let ?pkt = "\<lparr>snb_addr = a, mbuf = Mbuf (replicate cap 0) 0 1 None\<rparr>"
  let ?w1 = "w\<lparr>pool := as, allocs := Suc (allocs w)\<rparr>"
  let ?ret = "int (min (length d) cap)"
  let ?pkt1 = "write_data ?pkt (take cap d)"
  let ?w2 = "?w1\<lparr>recv_calls := Suc (recv_calls ?w1), recv_q := es\<rparr>"
  have al: "snb_alloc cap w = (Some ?pkt, ?w1)" using pw by (simp add: snb_alloc_def)
  have op1: "is_open ?w1 cfd" using op by (simp add: is_open_def)
  have q1: "recv_q ?w1 = Datagram d # es" using q by simp
  have rc: "recv cfd ?pkt cap ?w1 = (?ret, ?pkt1, ?w2)"
    by (rule recv_datagram [OF op1 q1])
  have pos: "0 < ?ret" using d cap by (cases d) auto
  let ?b = "snb_append ?pkt1 ?ret"
  have body: "recv_body cap cfd received pkts p w = Continue (received + 1, pkts @ [?b], p, ?w2)"
    using recv_body_allocated [OF al rc, of received pkts p] pos by simp
  have dl: "data_len (mbuf ?b) = min (length d) cap"
    by (simp add: snb_append_fields write_data_fields)
  have bytes: "snb_bytes ?b = take cap d"
    by (simp add: snb_bytes_def snb_append_fields write_data_fields min_def)
  have "snb_addr ?b = a" by (simp add: snb_append_fields write_data_fields)
  with body dl bytes show ?thesis by auto
qed

lemma recv_loop_extends:
  assumes "recv_loop cap cfd cnt received pkts p w = (n, ps, p', w')"
  shows "\<exists>more. ps = pkts @ more"
proof -
  let ?I = "\<lambda>(r :: int) ps (q :: UnixSocketPort) (v :: world). \<exists>more. ps = pkts @ more"
  have "case recv_loop cap cfd cnt received pkts p w of (r', ps', q', v') \<Rightarrow> ?I r' ps' q' v'"
  proof (rule recv_loop_invariant [where I = ?I])
    show "?I received pkts p w" by simp
  next
    fix r ps q v r' ps' q' v'
    assume I: "?I r ps q v" and b: "recv_body cap cfd r ps q v = Continue (r', ps', q', v')"
    from recv_body_Continue [OF b] I show "?I r' ps' q' v'" by auto
  next
    fix r ps q v r' ps' q' v'
    assume I: "?I r ps q v" and b: "recv_body cap cfd r ps q v = Break (r', ps', q', v')"
    from recv_body_Break [OF b] I show "?I r' ps' q' v'" by auto
  qed
  with assms show ?thesis by simp
qed

lemma recv_loop_drained:
  assumes "is_open w cfd" and "recv_q w = []"
  shows "\<exists>w'. recv_loop cap cfd cnt received pkts p w = (received, pkts, p, w')"
proof (cases "received < cnt")
  case False
  then show ?thesis by (simp add: recv_loop.simps)
next
  case True
  show ?thesis
  proof (cases "pool w")
    case Nil
    then show ?thesis using True
      by (simp add: recv_loop.simps [of cap cfd cnt received pkts p w] recv_body_no_buffer)
  next
    case (Cons a as)
    let ?pkt = "\<lparr>snb_addr = a, mbuf = Mbuf (replicate cap 0) 0 1 None\<rparr>"
    let ?w1 = "w\<lparr>pool := as, allocs := Suc (allocs w)\<rparr>"
    have al: "snb_alloc cap w = (Some ?pkt, ?w1)" using Cons by (simp add: snb_alloc_def)
    have rc: "recv cfd ?pkt cap ?w1 =
                (- 1, ?pkt, ?w1\<lparr>recv_calls := Suc (recv_calls ?w1), errno := EAGAIN\<rparr>)"
      using assms by (simp add: recv_def is_open_def Let_def)
    show ?thesis
      using True recv_body_allocated [OF al rc, of received pkts p]
      by (simp add: recv_loop.simps [of cap cfd cnt received pkts p w])
  qed
qed

lemma length_payloads: "length (payloads es) \<le> length es"
  by (induction es rule: payloads.induct) auto

lemma payloads_map_Datagram: "payloads (map Datagram ds) = ds"
  by (induction ds) auto

lemma room_map_Datagram: "room (map Datagram ds) = length ds"
  by (induction ds) auto

lemma length_payloads_room: "length (payloads es) \<le> room es"
  by (induction es rule: payloads.induct) auto

lemma recv_body_intr:
  assumes op: "is_open w cfd" and q: "recv_q w = RecvFailed EINTR # es" and pw: "pool w = a # as"
  shows "\<exists>w'. recv_body cap cfd received pkts p w = Continue (received, pkts, p, w') \<and>
           recv_q w' = es \<and> pool w' = pool w \<and> fds w' = fds w"
proof -
  let ?pkt = "\<lparr>snb_addr = a, mbuf = Mbuf (replicate cap 0) 0 1 None\<rparr>"
  let ?w1 = "w\<lparr>pool := as, allocs := Suc (allocs w)\<rparr>"
  let ?w2 = "?w1\<lparr>recv_calls := Suc (recv_calls ?w1), errno := EINTR, recv_q := es\<rparr>"
  have al: "snb_alloc cap w = (Some ?pkt, ?w1)" using pw by (simp add: snb_alloc_def)
  have rc: "recv cfd ?pkt cap ?w1 = (- 1, ?pkt, ?w2)"
    using op q by (simp add: recv_def is_open_def Let_def)
  from recv_body_allocated [OF al rc, of received pkts p]
  have "recv_body cap cfd received pkts p w = Continue (received, pkts, p, snb_free ?pkt ?w2)"
    by simp
  then show ?thesis using pw by (auto simp: snb_free_def)
qed

lemma recv_body_empty_datagram:
  assumes op: "is_open w cfd" and q: "recv_q w = Datagram [] # es" and pw: "pool w = a # as"
  shows "\<exists>w'. recv_body cap cfd received pkts p w =
                Break (received, pkts,
                       p\<lparr>old_client_fd := client_fd p, client_fd := NOT_CONNECTED,
                          accept_thread := 0\<rparr>, w') \<and>
           recv_q w' = es \<and> pool w' = pool w \<and> fds w' = fds w"
proof -
  let ?pkt = "\<lparr>snb_addr = a, mbuf = Mbuf (replicate cap 0) 0 1 None\<rparr>"
  let ?w1 = "w\<lparr>pool := as, allocs := Suc (allocs w)\<rparr>"
  let ?w2 = "?w1\<lparr>recv_calls := Suc (recv_calls ?w1), recv_q := es\<rparr>"
  have al: "snb_alloc cap w = (Some ?pkt, ?w1)" using pw by (simp add: snb_alloc_def)
  have op1: "is_open ?w1 cfd" using op by (simp add: is_open_def)
  have q1: "recv_q ?w1 = Datagram [] # es" using q by simp
  have rc: "recv cfd ?pkt cap ?w1 = (0, write_data ?pkt [], ?w2)"
    using recv_datagram [OF op1 q1, of ?pkt cap] by simp
  let ?w3 = "snb_free (write_data ?pkt []) ?w2"
  from recv_body_allocated [OF al rc, of received pkts p]
  have "recv_body cap cfd received pkts p w =
          Break (received, pkts, fst (CloseConnection (p, ?w3)), snd (CloseConnection (p, ?w3)))"
    by simp
  moreover have "pool ?w3 = pool w" "recv_q ?w3 = es" "fds ?w3 = fds w"
    using pw by (simp_all add: snb_free_def write_data_fields)
  ultimately show ?thesis
    by (simp add: CloseConnection_port CloseConnection_world)
qed

lemma recv_loop_script:
  assumes "is_open w cfd" and "recv_q w = es @ rest" and "list_all passes es"
    and "room es \<le> length (pool w)" and "0 < cap"
    and "received + int (room es) \<le> cnt"
  shows "\<exists>bs w'. recv_loop cap cfd cnt received pkts p w =
                   recv_loop cap cfd cnt (received + int (length (payloads es))) (pkts @ bs) p w' \<and>
           map snb_bytes bs = map (take cap) (payloads es) \<and>
           map (\<lambda>b. data_len (mbuf b)) bs = map (\<lambda>d. min (length d) cap) (payloads es) \<and>
           recv_q w' = rest \<and> is_open w' cfd \<and>
           pool w' = drop (length (payloads es)) (pool w)"
  using assms
proof (induction es arbitrary: received pkts w)
  case Nil
  then show ?case by (intro exI [of _ "[]"] exI [of _ w]) simp
next
  case (Cons e es)
  from Cons.prems obtain a as where pw: "pool w = a # as"
    by (cases "pool w"; cases e) auto
  have lt: "received < cnt" using Cons.prems(6) by (cases e) auto
  have ps: "list_all passes es" using Cons.prems(3) by simp
  show ?case
  proof (cases e)
    case (Datagram d)
    have q: "recv_q w = Datagram d # (es @ rest)" using Cons.prems Datagram by simp
    have d: "d \<noteq> []" using Cons.prems(3) Datagram by (simp add: passes_def)
    from recv_body_datagram [OF Cons.prems(1) q pw d Cons.prems(5), of received pkts p]
    obtain b w1 where
      body: "recv_body cap cfd received pkts p w = Continue (received + 1, pkts @ [b], p, w1)"
      and b: "snb_bytes b = take cap d" "data_len (mbuf b) = min (length d) cap"
      and w1: "recv_q w1 = es @ rest" "pool w1 = as" "fds w1 = fds w"
      by blast
    have step: "recv_loop cap cfd cnt received pkts p w =
                recv_loop cap cfd cnt (received + 1) (pkts @ [b]) p w1"
      using lt body by (simp add: recv_loop.simps [of cap cfd cnt received pkts p w])
    have op1: "is_open w1 cfd" using Cons.prems(1) w1 by (simp add: is_open_def)
    have len: "room es \<le> length (pool w1)" using Cons.prems(4) pw w1 Datagram by simp
    have bound: "received + 1 + int (room es) \<le> cnt" using Cons.prems(6) Datagram by simp
    from Cons.IH [OF op1 w1(1) ps len Cons.prems(5) bound, of "pkts @ [b]"]
    obtain bs w' where
      l: "recv_loop cap cfd cnt (received + 1) (pkts @ [b]) p w1 =
          recv_loop cap cfd cnt (received + 1 + int (length (payloads es))) ((pkts @ [b]) @ bs) p w'"
      and bs: "map snb_bytes bs = map (take cap) (payloads es)"
        "map (\<lambda>b. data_len (mbuf b)) bs = map (\<lambda>d. min (length d) cap) (payloads es)"
      and w': "recv_q w' = rest" "is_open w' cfd" "pool w' = drop (length (payloads es)) (pool w1)"
      by blast
    show ?thesis
      apply (intro exI [of _ "b # bs"] exI [of _ w'])
      using step l bs b w' Datagram pw w1 by (simp add: algebra_simps)
  next
    case Shutdown
    with Cons.prems(3) show ?thesis by (simp add: passes_def)
  next
    case (RecvFailed x)
    with Cons.prems(3) have x: "x = EINTR" by (simp add: passes_def)
    have q: "recv_q w = RecvFailed EINTR # (es @ rest)" using Cons.prems RecvFailed x by simp
    from recv_body_intr [OF Cons.prems(1) q pw, of cap received pkts p]
    obtain w1 where
      body: "recv_body cap cfd received pkts p w = Continue (received, pkts, p, w1)"
      and w1: "recv_q w1 = es @ rest" "pool w1 = pool w" "fds w1 = fds w"
      by blast
    have step: "recv_loop cap cfd cnt received pkts p w = recv_loop cap cfd cnt received pkts p w1"
      using lt body by (simp add: recv_loop.simps [of cap cfd cnt received pkts p w])
    have op1: "is_open w1 cfd" using Cons.prems(1) w1 by (simp add: is_open_def)
    have len: "room es \<le> length (pool w1)" using Cons.prems(4) w1 RecvFailed by simp
    have bound: "received + int (room es) \<le> cnt" using Cons.prems(6) RecvFailed by simp
    from Cons.IH [OF op1 w1(1) ps len Cons.prems(5) bound, of pkts]
    obtain bs w' where
      l: "recv_loop cap cfd cnt received pkts p w1 =
          recv_loop cap cfd cnt (received + int (length (payloads es))) (pkts @ bs) p w'"
      and bs: "map snb_bytes bs = map (take cap) (payloads es)"
        "map (\<lambda>b. data_len (mbuf b)) bs = map (\<lambda>d. min (length d) cap) (payloads es)"
      and w': "recv_q w' = rest" "is_open w' cfd" "pool w' = drop (length (payloads es)) (pool w1)"
      by blast
    show ?thesis
      apply (intro exI [of _ bs] exI [of _ w'])
      using step l bs w' RecvFailed w1 by simp
  qed
qed

lemma recv_loop_empty_datagram:
  assumes "received < cnt" and "is_open w cfd" and "recv_q w = Datagram [] # es"
    and "pool w \<noteq> []"
  shows "\<exists>w'. recv_loop cap cfd cnt received pkts p w =
                (received, pkts,
                 p\<lparr>old_client_fd := client_fd p, client_fd := NOT_CONNECTED, accept_thread := 0\<rparr>,
                 w') \<and>
           recv_q w' = es \<and> pool w' = pool w \<and> fds w' = fds w"
proof -
  from assms(4) obtain a as where pw: "pool w = a # as" by (cases "pool w") auto
  from recv_body_empty_datagram [OF assms(2,3) pw, of cap received pkts p]
  obtain w' where
    "recv_body cap cfd received pkts p w =
       Break (received, pkts,
              p\<lparr>old_client_fd := client_fd p, client_fd := NOT_CONNECTED, accept_thread := 0\<rparr>, w')"
    and w': "recv_q w' = es" "pool w' = pool w" "fds w' = fds w"
    by blast
  then show ?thesis
    using assms(1) by (simp add: recv_loop.simps [of cap cfd cnt received pkts p w])
qed

lemma recv_loop_nonempty_datagram:
  assumes "received < cnt" and "is_open w cfd" and "recv_q w = Datagram d # es"
    and "pool w \<noteq> []" and "d \<noteq> []" and "0 < cap"
  shows "\<exists>b more n p' w'. recv_loop cap cfd cnt received pkts p w = (n, pkts @ b # more, p', w') \<and>
           snb_bytes b = take cap d \<and> data_len (mbuf b) = min (length d) cap"
proof -
  from assms(4) obtain a as where pw: "pool w = a # as" by (cases "pool w") auto
  from recv_body_datagram [OF assms(2,3) pw assms(5,6), of received pkts p]
  obtain b w1 where
    body: "recv_body cap cfd received pkts p w = Continue (received + 1, pkts @ [b], p, w1)"
    and b: "snb_bytes b = take cap d" "data_len (mbuf b) = min (length d) cap"
    by blast
  have step: "recv_loop cap cfd cnt received pkts p w =
              recv_loop cap cfd cnt (received + 1) (pkts @ [b]) p w1"
    using assms(1) body by (simp add: recv_loop.simps [of cap cfd cnt received pkts p w])
  obtain n ps p' w' where r: "recv_loop cap cfd cnt (received + 1) (pkts @ [b]) p w1 = (n, ps, p', w')"
    by (cases "recv_loop cap cfd cnt (received + 1) (pkts @ [b]) p w1") auto
  from recv_loop_extends [OF r] obtain more where "ps = (pkts @ [b]) @ more" by blast
  with step r b show ?thesis by auto
qed

text \<open>
  Claim C9, as the code has it. No buffer returned by a receive call has a recorded
  length above the capacity. In any iteration of the receive loop that reads a
  datagram, whatever the loop has done before it: a datagram of at least one byte
  gives exactly one buffer, placed right after those collected so far and returned by
  the call, which holds the first \<open>cap\<close> bytes of the datagram (all of it when it has
  no more than that) and whose recorded length is the smaller of the datagram's
  length and \<open>cap\<close>; a datagram of no bytes gives no buffer, the loop ends there with
  the buffers collected so far and the descriptor is retired. For a whole call on an
  active connection that is not throttled: when datagrams of at least one byte and
  interrupted calls are waiting, in any order, and there is room for them, the call
  returns one buffer per datagram, in order, with these bytes and lengths. When nothing
  else is waiting these are all the buffers returned and the driver object is
  unchanged: the connection is not declared lost, whatever the sizes. When a datagram
  of no bytes comes next and is read, these are all the buffers returned and the
  connection is declared lost.
\<close>

theorem RecvPackets_datagram_roundtrip:
  "(\<forall>b\<in>set (fst (snd (RecvPackets cap qid cnt (p, w)))). data_len (mbuf b) \<le> cap) \<and>
   (received < cnt \<and> is_open v cfd \<and> pool v \<noteq> [] \<and> recv_q v = Datagram d # qs \<and> 0 < cap \<longrightarrow>
      (d \<noteq> [] \<longrightarrow>
         (\<exists>b more n q' v'. recv_loop cap cfd cnt received bufs q v = (n, bufs @ b # more, q', v') \<and>
            snb_bytes b = take cap d \<and> data_len (mbuf b) = min (length d) cap)) \<and>
      (d = [] \<longrightarrow>
         (\<exists>v'. recv_loop cap cfd cnt received bufs q v =
                  (received, bufs,
                   q\<lparr>old_client_fd := client_fd q, client_fd := NOT_CONNECTED,
                      accept_thread := 0\<rparr>, v') \<and>
                recv_q v' = qs \<and> pool v' = pool v))) \<and>
   (client_fd p \<noteq> NOT_CONNECTED \<and> is_open w (client_fd p) \<and> recv_skip_cnt p = 0 \<and> 0 < cap \<and>
    recv_q w = es @ rest \<and> list_all passes es \<and>
    int (room es) \<le> cnt \<and> room es \<le> length (pool w) \<longrightarrow>
      (\<exists>pkts p' w'. RecvPackets cap qid cnt (p, w) = (int (length pkts), pkts, p', w') \<and>
         length (payloads es) \<le> length pkts \<and>
         map snb_bytes (take (length (payloads es)) pkts) = map (take cap) (payloads es) \<and>
         map (\<lambda>b. data_len (mbuf b)) (take (length (payloads es)) pkts) =
           map (\<lambda>d. min (length d) cap) (payloads es) \<and>
         (rest = [] \<and> payloads es \<noteq> [] \<longrightarrow> length pkts = length (payloads es) \<and> p' = p) \<and>
         (\<forall>rest'. rest = Datagram [] # rest' \<and> int (length (payloads es)) < cnt \<and>
                   length (payloads es) < length (pool w) \<longrightarrow>
            length pkts = length (payloads es) \<and> client_fd p' = NOT_CONNECTED \<and>
            old_client_fd p' = client_fd p \<and> recv_q w' = rest')))"
proof (intro conjI impI)
  obtain n ps p' w' where r: "RecvPackets cap qid cnt (p, w) = (n, ps, p', w')"
    by (cases "RecvPackets cap qid cnt (p, w)") auto
  from RecvPackets_accounting [OF r]
  show "\<forall>b\<in>set (fst (snd (RecvPackets cap qid cnt (p, w)))). data_len (mbuf b) \<le> cap"
    by (simp add: r)
next
  assume h: "received < cnt \<and> is_open v cfd \<and> pool v \<noteq> [] \<and> recv_q v = Datagram d # qs \<and> 0 < cap"
    and d: "d \<noteq> []"
  from h d recv_loop_nonempty_datagram [of received cnt v cfd d qs cap bufs q]
  show "\<exists>b more n q' v'. recv_loop cap cfd cnt received bufs q v = (n, bufs @ b # more, q', v') \<and>
            snb_bytes b = take cap d \<and> data_len (mbuf b) = min (length d) cap"
    by simp
next
  assume h: "received < cnt \<and> is_open v cfd \<and> pool v \<noteq> [] \<and> recv_q v = Datagram d # qs \<and> 0 < cap"
    and d: "d = []"
  from h d recv_loop_empty_datagram [of received cnt v cfd qs cap bufs q]
  show "\<exists>v'. recv_loop cap cfd cnt received bufs q v =
                  (received, bufs,
                   q\<lparr>old_client_fd := client_fd q, client_fd := NOT_CONNECTED,
                      accept_thread := 0\<rparr>, v') \<and>
                recv_q v' = qs \<and> pool v' = pool v"
    by auto
next
  assume h: "client_fd p \<noteq> NOT_CONNECTED \<and> is_open w (client_fd p) \<and> recv_skip_cnt p = 0 \<and>
    0 < cap \<and> recv_q w = es @ rest \<and> list_all passes es \<and>
    int (room es) \<le> cnt \<and> room es \<le> length (pool w)"
  let ?cfd = "client_fd p" and ?ds = "payloads es"
  from h have bound: "0 + int (room es) \<le> cnt" by simp
  from h recv_loop_script [of w ?cfd es rest cap 0 cnt "[]" p, OF _ _ _ _ _ bound]
  obtain bs w1 where
    l1: "recv_loop cap ?cfd cnt 0 [] p w = recv_loop cap ?cfd cnt (int (length ?ds)) bs p w1"
    and bs: "map snb_bytes bs = map (take cap) ?ds"
      "map (\<lambda>b. data_len (mbuf b)) bs = map (\<lambda>d. min (length d) cap) ?ds"
    and w1: "recv_q w1 = rest" "is_open w1 ?cfd" "pool w1 = drop (length ?ds) (pool w)"
    by auto
  have lbs: "length bs = length ?ds" using bs(1) by (metis length_map)
  obtain n ps p1 w2 where l2: "recv_loop cap ?cfd cnt (int (length ?ds)) bs p w1 = (n, ps, p1, w2)"
    by (cases "recv_loop cap ?cfd cnt (int (length ?ds)) bs p w1") auto
  from recv_loop_extends [OF l2] obtain more where ps: "ps = bs @ more" by blast
  from l1 l2 have l: "recv_loop cap ?cfd cnt 0 [] p w = (n, ps, p1, w2)" by simp
  from recv_loop_accounting [OF l] have n: "n = int (length ps)" by simp
  let ?p' = "if n = 0 then p1\<lparr>recv_skip_cnt := RECV_SKIP_TICKS\<rparr> else p1"
  have r: "RecvPackets cap qid cnt (p, w) = (int (length ps), ps, ?p', w2)"
    using h l n by (simp add: RecvPackets_def Let_def)
  have tk: "take (length ?ds) ps = bs" using ps lbs by simp
  have drained: "rest = [] \<and> ?ds \<noteq> [] \<longrightarrow> length ps = length ?ds \<and> ?p' = p"
  proof
    assume e: "rest = [] \<and> ?ds \<noteq> []"
    with w1 recv_loop_drained [of w1 ?cfd cap cnt "int (length ?ds)" bs p] l2
    have "ps = bs" "p1 = p" by auto
    with lbs n e show "length ps = length ?ds \<and> ?p' = p" by simp
  qed
  have empty: "\<forall>rest'. rest = Datagram [] # rest' \<and> int (length (payloads es)) < cnt \<and>
                   length (payloads es) < length (pool w) \<longrightarrow>
            length ps = length ?ds \<and> client_fd ?p' = NOT_CONNECTED \<and>
            old_client_fd ?p' = client_fd p \<and> recv_q w2 = rest'"
  proof (intro allI impI)
    fix rest'
    assume e: "rest = Datagram [] # rest' \<and> int (length (payloads es)) < cnt \<and>
               length (payloads es) < length (pool w)"
    from e have lt: "int (length ?ds) < cnt" by simp
    from e w1 have pn: "pool w1 \<noteq> []" by simp
    from e w1 have q1: "recv_q w1 = Datagram [] # rest'" by simp
    from recv_loop_empty_datagram [OF lt w1(2) q1 pn, of cap bs p] l2
    have "ps = bs" "p1 = p\<lparr>old_client_fd := client_fd p, client_fd := NOT_CONNECTED,
                           accept_thread := 0\<rparr>" "recv_q w2 = rest'"
      by auto
    with lbs show "length ps = length ?ds \<and> client_fd ?p' = NOT_CONNECTED \<and>
            old_client_fd ?p' = client_fd p \<and> recv_q w2 = rest'"
      by simp
  qed
  show "\<exists>pkts p' w'. RecvPackets cap qid cnt (p, w) = (int (length pkts), pkts, p', w') \<and>
         length ?ds \<le> length pkts \<and>
         map snb_bytes (take (length ?ds) pkts) = map (take cap) ?ds \<and>
         map (\<lambda>b. data_len (mbuf b)) (take (length ?ds) pkts) =
           map (\<lambda>d. min (length d) cap) ?ds \<and>
         (rest = [] \<and> ?ds \<noteq> [] \<longrightarrow> length pkts = length ?ds \<and> p' = p) \<and>
         (\<forall>rest'. rest = Datagram [] # rest' \<and> int (length (payloads es)) < cnt \<and>
                   length (payloads es) < length (pool w) \<longrightarrow>
            length pkts = length ?ds \<and> client_fd p' = NOT_CONNECTED \<and>
            old_client_fd p' = client_fd p \<and> recv_q w' = rest')"
    apply (intro exI [of _ ps] exI [of _ ?p'] exI [of _ w2])
    using r ps lbs tk bs drained empty by simp
qed

theorem RecvPackets_datagram_roundtrip_witness:
  "client_fd example_port \<noteq> NOT_CONNECTED \<and> recv_skip_cnt example_port = 0 \<and>
   is_open example_world (client_fd example_port) \<and>
   list_all passes [RecvFailed EINTR, Datagram [1, 2, 3], RecvFailed EINTR,
                    Datagram [1, 2, 3, 4, 5, 6]] \<and>
   room [RecvFailed EINTR, Datagram [1, 2, 3], RecvFailed EINTR,
         Datagram [1, 2, 3, 4, 5, 6]] = 2 \<and>
   (\<exists>pkts w'.
      RecvPackets 4 0 32
        (example_port,
         example_world\<lparr>recv_q := [RecvFailed EINTR, Datagram [1, 2, 3], RecvFailed EINTR,
                                  Datagram [1, 2, 3, 4, 5, 6]]\<rparr>) =
        (2, pkts, example_port, w') \<and>
      map snb_bytes pkts = [[1, 2, 3], [1, 2, 3, 4]] \<and>
      map (\<lambda>b. data_len (mbuf b)) pkts = [3, 4]) \<and>
   (\<exists>pkts p' w'.
      RecvPackets 4 0 32
        (example_port, example_world\<lparr>recv_q := [Datagram [7], Datagram [], Datagram [9]]\<rparr>) =
        (1, pkts, p', w') \<and>
      map snb_bytes pkts = [[7]] \<and> client_fd p' = NOT_CONNECTED \<and>
      old_client_fd p' = 5 \<and> recv_q w' = [Datagram [9]])"
proof -
  let ?es = "[RecvFailed EINTR, Datagram [1, 2, 3], RecvFailed EINTR,
              Datagram [1, 2, 3, 4, 5, 6 :: byte]]"
  let ?w = "example_world\<lparr>recv_q := ?es\<rparr>"
  let ?es2 = "[Datagram [7 :: byte]]"
  let ?w2 = "example_world\<lparr>recv_q := [Datagram [7], Datagram [], Datagram [9]]\<rparr>"
  have h1: "client_fd example_port \<noteq> NOT_CONNECTED" "recv_skip_cnt example_port = 0"
    "is_open example_world (client_fd example_port)"
    by (simp_all add: example_port_def example_world_def NOT_CONNECTED_def is_open_def)
  have o: "is_open ?w (client_fd example_port)" "is_open ?w2 (client_fd example_port)"
    using h1(3) by (simp_all add: is_open_def)
  have ps: "list_all passes ?es" "list_all passes ?es2" by (simp_all add: passes_def)
  have rm: "room ?es = 2" "room ?es2 = 1" by simp_all
  have pl: "payloads ?es = [[1, 2, 3], [1, 2, 3, 4, 5, 6]]" "payloads ?es2 = [[7]]" by simp_all
  have pool: "length (pool ?w) = 2" "length (pool ?w2) = 2" by (simp_all add: example_world_def)
  have q: "recv_q ?w = ?es @ []" "recv_q ?w2 = ?es2 @ Datagram [] # [Datagram [9]]" by simp_all
  have H1: "client_fd example_port \<noteq> NOT_CONNECTED \<and> is_open ?w (client_fd example_port) \<and>
    recv_skip_cnt example_port = 0 \<and> 0 < (4 :: nat) \<and> recv_q ?w = ?es @ [] \<and>
    list_all passes ?es \<and> int (room ?es) \<le> 32 \<and> room ?es \<le> length (pool ?w)"
    using h1 o ps rm pool by simp
  from RecvPackets_datagram_roundtrip [where cap = 4 and qid = 0 and cnt = 32
      and p = example_port and w = ?w and es = ?es and rest = "[]",
      THEN conjunct2, THEN conjunct2, THEN mp, OF H1]
  obtain pkts p' w' where
    a: "RecvPackets 4 0 32 (example_port, ?w) = (int (length pkts), pkts, p', w')"
    "length (payloads ?es) \<le> length pkts"
    "map snb_bytes (take (length (payloads ?es)) pkts) = map (take 4) (payloads ?es)"
    "map (\<lambda>b. data_len (mbuf b)) (take (length (payloads ?es)) pkts) =
       map (\<lambda>d. min (length d) 4) (payloads ?es)"
    "[] = ([] :: recv_event list) \<and> payloads ?es \<noteq> [] \<longrightarrow>
       length pkts = length (payloads ?es) \<and> p' = example_port"
    by blast
  from a(5) have a5: "length pkts = 2" "p' = example_port" by simp_all
  from a(1,3,4) a5 have A: "RecvPackets 4 0 32 (example_port, ?w) = (2, pkts, example_port, w') \<and>
      map snb_bytes pkts = [[1, 2, 3], [1, 2, 3, 4]] \<and>
      map (\<lambda>b. data_len (mbuf b)) pkts = [3, 4]"
    by simp
  have H2: "client_fd example_port \<noteq> NOT_CONNECTED \<and> is_open ?w2 (client_fd example_port) \<and>
    recv_skip_cnt example_port = 0 \<and> 0 < (4 :: nat) \<and>
    recv_q ?w2 = ?es2 @ Datagram [] # [Datagram [9]] \<and>
    list_all passes ?es2 \<and> int (room ?es2) \<le> 32 \<and> room ?es2 \<le> length (pool ?w2)"
    using h1 o ps rm pool by simp
  from RecvPackets_datagram_roundtrip [where cap = 4 and qid = 0 and cnt = 32
      and p = example_port and w = ?w2 and es = ?es2 and rest = "Datagram [] # [Datagram [9]]",
      THEN conjunct2, THEN conjunct2, THEN mp, OF H2]
  obtain pkts2 p2 w2 where
    b: "RecvPackets 4 0 32 (example_port, ?w2) = (int (length pkts2), pkts2, p2, w2)"
    "map snb_bytes (take (length (payloads ?es2)) pkts2) = map (take 4) (payloads ?es2)"
    "\<forall>rest'. Datagram [] # [Datagram [9]] = Datagram [] # rest' \<and>
        int (length (payloads ?es2)) < 32 \<and> length (payloads ?es2) < length (pool ?w2) \<longrightarrow>
        length pkts2 = length (payloads ?es2) \<and> client_fd p2 = NOT_CONNECTED \<and>
        old_client_fd p2 = client_fd example_port \<and> recv_q w2 = rest'"
    by blast
  from b(3) [rule_format, of "[Datagram [9]]"] pool
  have b4: "length pkts2 = 1 \<and> client_fd p2 = NOT_CONNECTED \<and>
        old_client_fd p2 = client_fd example_port \<and> recv_q w2 = [Datagram [9]]"
    by simp
  from b(1,2) b4 have B: "RecvPackets 4 0 32 (example_port, ?w2) = (1, pkts2, p2, w2) \<and>
      map snb_bytes pkts2 = [[7]] \<and> client_fd p2 = NOT_CONNECTED \<and>
      old_client_fd p2 = 5 \<and> recv_q w2 = [Datagram [9]]"
    by (simp add: example_port_def)
  from A have A': "\<exists>pkts w'. RecvPackets 4 0 32 (example_port, ?w) = (2, pkts, example_port, w') \<and>
      map snb_bytes pkts = [[1, 2, 3], [1, 2, 3, 4]] \<and>
      map (\<lambda>b. data_len (mbuf b)) pkts = [3, 4]"
    by (intro exI)
  from B have B': "\<exists>pkts p' w'. RecvPackets 4 0 32 (example_port, ?w2) = (1, pkts, p', w') \<and>
      map snb_bytes pkts = [[7]] \<and> client_fd p' = NOT_CONNECTED \<and>
      old_client_fd p' = 5 \<and> recv_q w' = [Datagram [9]]"
    by (intro exI)
  from h1 ps(1) rm(1) A' B' show ?thesis by (intro conjI)
qed

text \<open>
  Claim C9 as it is written fails for a datagram of no bytes, which the socket type
  allows: \<open>recv\<close> returns 0 for it, the loop takes that for the end of the connection,
  returns no buffer and retires the descriptor.
\<close>

theorem RecvPackets_empty_datagram_counterexample:
  "length ([] :: byte list) \<le> 4 \<and>
   (case RecvPackets 4 0 32 (example_port, example_world\<lparr>recv_q := [Datagram []]\<rparr>) of
      (n, pkts, p', w') \<Rightarrow> (n, pkts, client_fd p', old_client_fd p', recv_q w')) =
     (0, [], NOT_CONNECTED, 5, [])"
  by code_simp

subsection \<open>Losing and regaining the connection\<close>

lemma RecvPackets_not_connected:
  "client_fd p = NOT_CONNECTED \<Longrightarrow> RecvPackets cap qid cnt (p, w) = (0, [], p, w)"
  by (simp add: RecvPackets_def)

lemma SendPackets_port_fds:
  assumes "SendPackets qid pkts cnt (p, w) = Inr (n, p', w')"
  shows "p' = p \<and> fds w' = fds w"
proof -
  from SendPackets_Inr [OF assms] obtain w1 where
    l: "send_loop (client_fd p) pkts cnt 0 0 w = Inr (n, w1)" and p: "p' = p" and
    w': "w' = (if n \<noteq> 0 then snb_free_bulk pkts n w1 else w1)" by blast
  from send_loop_frame [OF l] w' p show ?thesis
    by (simp add: send_frame_def snb_free_bulk_def)
qed

lemma data_path_not_connected:
  "client_fd p = NOT_CONNECTED \<Longrightarrow> data_path cap cs (p, w) = Inr (p', w') \<Longrightarrow>
     p' = p \<and> fds w' = fds w"
proof (induction cs arbitrary: w)
  case Nil
  then show ?case by simp
next
  case (Cons c cs)
  show ?case
  proof (cases c)
    case (RecvCall qid cnt)
    with Cons.prems RecvPackets_not_connected [OF Cons.prems(1), of cap qid cnt w]
    have "data_path cap cs (p, w) = Inr (p', w')" by simp
    from Cons.IH [OF Cons.prems(1) this] show ?thesis .
  next
    case (SendCall qid pkts cnt)
    with Cons.prems obtain n p1 w1 where
      s: "SendPackets qid pkts cnt (p, w) = Inr (n, p1, w1)" and
      r: "data_path cap cs (p1, w1) = Inr (p', w')"
      by (auto split: sum.splits)
    from SendPackets_port_fds [OF s] have e: "p1 = p" "fds w1 = fds w" by simp_all
    from Cons.IH [OF Cons.prems(1) r [unfolded e(1)]] e show ?thesis by simp
  qed
qed

lemma CloseConnection_acceptors:
  "acceptors (snd (CloseConnection (p, w))) =
     (if spawn_q w = [] \<or> hd (spawn_q w) = 0 then Suc (acceptors w) else acceptors w)"
  by (simp add: CloseConnection_def pthread_create_def log_err_def Let_def
           split: list.splits prod.splits)

text \<open>
  Claim C2. \<open>CloseConnection\<close> copies the active descriptor into the retired slot,
  sets the active descriptor to \<open>NOT_CONNECTED\<close> and leaves the descriptor table as
  it is, so the retired descriptor is not closed. It calls \<open>pthread_create\<close> once for
  a new accept thread, which exists from then on unless the call is refused, in which
  case the refusal is logged. Whatever receive and send calls the scheduler makes
  afterwards, the retired slot, the empty active slot and the descriptor table stay
  as they were: the retired descriptor is as open as it was when the loss was
  declared.
\<close>

theorem CloseConnection_retires_without_closing:
  "old_client_fd (fst (CloseConnection (p, w))) = client_fd p \<and>
   client_fd (fst (CloseConnection (p, w))) = NOT_CONNECTED \<and>
   recv_skip_cnt (fst (CloseConnection (p, w))) = recv_skip_cnt p \<and>
   fds (snd (CloseConnection (p, w))) = fds w \<and>
   pthread_create_calls (snd (CloseConnection (p, w))) = Suc (pthread_create_calls w) \<and>
   acceptors (snd (CloseConnection (p, w))) =
     (if spawn_q w = [] \<or> hd (spawn_q w) = 0 then Suc (acceptors w) else acceptors w) \<and>
   (\<forall>cs p' w'. data_path cap cs (CloseConnection (p, w)) = Inr (p', w') \<longrightarrow>
      old_client_fd p' = client_fd p \<and> client_fd p' = NOT_CONNECTED \<and> fds w' = fds w \<and>
      is_open w' (client_fd p) = is_open w (client_fd p))"
proof (intro conjI allI impI)
  show "old_client_fd (fst (CloseConnection (p, w))) = client_fd p"
    "client_fd (fst (CloseConnection (p, w))) = NOT_CONNECTED"
    "recv_skip_cnt (fst (CloseConnection (p, w))) = recv_skip_cnt p"
    by (simp_all add: CloseConnection_port)
  show "fds (snd (CloseConnection (p, w))) = fds w"
    "pthread_create_calls (snd (CloseConnection (p, w))) = Suc (pthread_create_calls w)"
    by (simp_all add: CloseConnection_world)
  show "acceptors (snd (CloseConnection (p, w))) =
     (if spawn_q w = [] \<or> hd (spawn_q w) = 0 then Suc (acceptors w) else acceptors w)"
    by (rule CloseConnection_acceptors)
next
  fix cs p' w'
  assume d: "data_path cap cs (CloseConnection (p, w)) = Inr (p', w')"
  let ?p = "fst (CloseConnection (p, w))" and ?w = "snd (CloseConnection (p, w))"
  have nc: "client_fd ?p = NOT_CONNECTED" by (simp add: CloseConnection_port)
  from d have "data_path cap cs (?p, ?w) = Inr (p', w')" by simp
  from data_path_not_connected [OF nc this]
  have e: "p' = ?p" "fds w' = fds w" by (simp_all add: CloseConnection_world)
  show "old_client_fd p' = client_fd p" "client_fd p' = NOT_CONNECTED" "fds w' = fds w"
    "is_open w' (client_fd p) = is_open w (client_fd p)"
    using e by (simp_all add: CloseConnection_port is_open_def)
qed

theorem CloseConnection_retires_without_closing_witness:
  "(\<exists>p' w'. data_path 4 [RecvCall 0 32, SendCall 0 example_batch 3, RecvCall 0 1]
              (CloseConnection (example_port, example_world)) = Inr (p', w') \<and>
            old_client_fd p' = 5 \<and> client_fd p' = NOT_CONNECTED \<and>
            fds w' = fds example_world \<and> is_open w' 5)"
proof -
  let ?cs = "[RecvCall 0 32, SendCall 0 example_batch 3, RecvCall 0 1]"
  have "(case data_path 4 ?cs (CloseConnection (example_port, example_world)) of
           Inl f \<Rightarrow> False | Inr s \<Rightarrow> True)"
    by code_simp
  then obtain p' w' where
    d: "data_path 4 ?cs (CloseConnection (example_port, example_world)) = Inr (p', w')"
    by (cases "data_path 4 ?cs (CloseConnection (example_port, example_world))") auto
  have o: "is_open example_world 5" "client_fd example_port = 5"
    by (simp_all add: is_open_def example_world_def example_port_def)
  from CloseConnection_retires_without_closing [of example_port example_world 4]
  have "\<forall>cs p' w'. data_path 4 cs (CloseConnection (example_port, example_world)) = Inr (p', w') \<longrightarrow>
      old_client_fd p' = client_fd example_port \<and> client_fd p' = NOT_CONNECTED \<and>
      fds w' = fds example_world \<and>
      is_open w' (client_fd example_port) = is_open example_world (client_fd example_port)"
    by (elim conjE)
  from this [rule_format, OF d] o
  have "old_client_fd p' = 5 \<and> client_fd p' = NOT_CONNECTED \<and>
        fds w' = fds example_world \<and> is_open w' 5"
    by simp
  with d have "data_path 4 ?cs (CloseConnection (example_port, example_world)) = Inr (p', w') \<and>
        old_client_fd p' = 5 \<and> client_fd p' = NOT_CONNECTED \<and>
        fds w' = fds example_world \<and> is_open w' 5"
    by (rule conjI)
  then show ?thesis by (intro exI)
qed

text \<open>
  What \<open>AcceptNewClient\<close> does in each of its two branches. With nothing retired the
  accepted descriptor becomes the active one. With a descriptor retired and the active
  field at \<open>NOT_CONNECTED\<close>, which is the state every \<open>CloseConnection\<close> leaves, the
  active field stays \<open>NOT_CONNECTED\<close> and the accepted descriptor is closed again.
\<close>

lemma accept_loop_result:
  "accept_loop lfd w = Some (ret, w1) \<Longrightarrow> 0 \<le> ret \<and> is_open w1 ret"
proof (induct lfd w rule: accept_loop.induct)
  case (1 lfd w)
  show ?case
  proof (cases "accept4 lfd w")
    case None
    with "1.prems" show ?thesis by (simp add: accept_loop.simps [of lfd w])
  next
    case (Some a)
    obtain r w0 where a: "a = (r, w0)" by (cases a)
    show ?thesis
    proof (cases "0 \<le> r")
      case True
      with "1.prems" Some a have e: "ret = r" "w1 = w0"
        by (simp_all add: accept_loop.simps [of lfd w])
      from Some a True have "is_open w0 r"
        by (auto simp: accept4_def is_open_def split: list.splits accept_event.splits)
      with e True show ?thesis by simp
    next
      case False
      let ?w = "if errno w0 \<noteq> EINTR then log_perr ''[UnixSocket]:accept4()'' w0 else w0"
      from "1.prems" Some a False have "accept_loop lfd ?w = Some (ret, w1)"
        by (simp add: accept_loop.simps [of lfd w])
      from "1.hyps" [OF Some a [symmetric] False this] show ?thesis .
    qed
  qed
qed

lemma AcceptNewClient_direct_install:
  assumes "old_client_fd p = NOT_CONNECTED" and "AcceptNewClient (p, w) = Some (p', w')"
  shows "recv_skip_cnt p' = 0 \<and> client_fd p' \<noteq> NOT_CONNECTED \<and> is_open w' (client_fd p')"
proof -
  from assms obtain ret where
    l: "accept_loop (listen_fd p) w = Some (ret, w')" and p': "p' = p\<lparr>recv_skip_cnt := 0, client_fd := ret\<rparr>"
    by (auto simp: AcceptNewClient_def Let_def split: option.splits)
  from accept_loop_result [OF l] p' show ?thesis by (simp add: NOT_CONNECTED_def)
qed

lemma AcceptNewClient_pending_retirement:
  assumes "old_client_fd p \<noteq> NOT_CONNECTED" and "client_fd p = NOT_CONNECTED"
    and "AcceptNewClient (p, w) = Some (p', w')"
  shows "recv_skip_cnt p' = 0 \<and> client_fd p' = NOT_CONNECTED \<and> \<not> is_open w' (client_fd p')"
proof -
  from assms have "p' = p\<lparr>recv_skip_cnt := 0\<rparr>"
    by (auto simp: AcceptNewClient_def Let_def split: option.splits prod.splits)
  with assms(2) show ?thesis by (simp add: is_open_def NOT_CONNECTED_def)
qed

lemma AcceptNewClient_pending_retirement_closes_new:
  assumes "old_client_fd p \<noteq> NOT_CONNECTED" and "client_fd p = NOT_CONNECTED"
    and "AcceptNewClient (p, w) = Some (p', w')"
  shows "\<exists>ret w1. accept_loop (listen_fd p) w = Some (ret, w1) \<and> \<not> is_open w' ret \<and>
           (\<forall>fd. fd \<noteq> ret \<longrightarrow> fds w' fd = fds w1 fd)"
proof -
  from assms(3) obtain ret w1 where l: "accept_loop (listen_fd p) w = Some (ret, w1)"
    by (auto simp: AcceptNewClient_def split: option.splits)
  from accept_loop_result [OF l] have r: "0 \<le> ret" "is_open w1 ret" by simp_all
  have d: "dup2 ret NOT_CONNECTED w1 = (- 1, w1\<lparr>errno := EBADF\<rparr>)"
    by (simp add: dup2_def NOT_CONNECTED_def)
  have o: "is_open (w1\<lparr>errno := EBADF\<rparr>) ret" using r by (simp add: is_open_def)
  have c: "close ret (w1\<lparr>errno := EBADF\<rparr>) = (0, w1\<lparr>errno := EBADF, fds := (fds w1)(ret := None)\<rparr>)"
    using o by (simp add: close_def)
  from assms l d c have "w' = w1\<lparr>errno := EBADF, fds := (fds w1)(ret := None)\<rparr>"
    by (simp add: AcceptNewClient_def Let_def)
  with l show ?thesis by (auto simp: is_open_def)
qed

text \<open>
  Claim C1 on the code. From the state after \<open>Init\<close>, the first client is accepted on
  descriptor 5, which becomes the active descriptor, open and referring to that client.
  The client shuts down; the next receive call returns 0 and retires descriptor 5. The
  second client is accepted on descriptor 6. \<open>AcceptNewClient\<close> now takes the branch
  for a pending retirement and calls \<open>dup2\<close> with the active field as target, which
  holds \<open>NOT_CONNECTED\<close> since the loss; the call fails and \<open>close\<close> drops descriptor 6.
  Afterwards the active field is still \<open>NOT_CONNECTED\<close>, no descriptor refers to the
  second client, and descriptor 5 still refers to the first.
\<close>

theorem AcceptNewClient_after_loss_drops_new_client:
  "(case AcceptNewClient (startup_port, startup_world) of
      None \<Rightarrow> None
    | Some (p1, w1) \<Rightarrow>
        (case RecvPackets 2048 0 32 (p1, w1) of
           (n, pkts, p2, w2) \<Rightarrow>
             (case AcceptNewClient (p2, w2) of
                None \<Rightarrow> None
              | Some (p3, w3) \<Rightarrow>
                  Some ((client_fd p1, fds w1 5),
                        (n, client_fd p2, old_client_fd p2),
                        (client_fd p3, old_client_fd p3, recv_skip_cnt p3),
                        (fds w3 5, fds w3 6, is_open w3 (client_fd p3)))))) =
   Some ((5, Some 1), (0, NOT_CONNECTED, 5), (NOT_CONNECTED, 5, 0), (Some 1, None, False))"
  by code_simp

end
